theory Spec2Isabelle
  imports Complex_Main "HOL-Library.AList" "HOL-Library.Multiset"
begin

section \<open>Errors and the version-control adapter\<close>

text \<open>
  The JavaScript sources throw plain \<open>Error\<close> objects that differ only in their
  message. The model names them after the taxonomy of the specification:
  \<^item> \<open>NotFound\<close>: "Worktree ... not found", "Mutation ... not found";
  \<^item> \<open>CapacityExceeded\<close>: "Maximum worktrees (...) reached", "Maximum concurrent
    mutations (...) reached";
  \<^item> \<open>InvalidState\<close>: "Mutation ... is not active (status: ...)";
  \<^item> \<open>VcsOperationFailure\<close>: a rejected call of the git adapter, rethrown;
  \<^item> \<open>ExternalFailure\<close>: a rejected call of another collaborator (the file system,
    \<open>ashvatthaTree.invokeGod\<close>), rethrown.
\<close>

datatype error = NotFound | CapacityExceeded | InvalidState | VcsOperationFailure | ExternalFailure

text \<open>
  The commands the two managers send to git. \<open>WtAddAll\<close> and \<open>WtCommit\<close> go to the
  git instance of one worktree (named by its path), the others to the shared repository.
  \<open>WtCommit path message mutationId god\<close> stands for the commit whose message is the
  caller's message followed by the mutation and god trailer lines.
\<close>

datatype git_cmd =
    CheckoutLocalBranch string
  | Checkout string
  | WorktreeAdd string string
  | WorktreeRemove string
  | DeleteLocalBranch string
  | MergeFromTo string string
  | AddAll
  | Commit string
  | WtAddAll string
  | WtCommit string string string string

text \<open>
  Awaiting a list of git calls in sequence: every call that is made is recorded in the
  log (most recent last); the first rejected call stops the sequence (\<open>False\<close>).
\<close>

fun run_git :: "(git_cmd \<Rightarrow> bool) \<Rightarrow> git_cmd list \<Rightarrow> git_cmd list \<Rightarrow> bool \<times> git_cmd list" where
  "run_git ok [] issued = (True, issued)"
| "run_git ok (c # cs) issued =
     (if ok c then run_git ok cs (issued @ [c]) else (False, issued @ [c]))"

text \<open>
  What a call reads from outside the manager: the clock (\<open>Date.now()\<close>, milliseconds),
  which git calls succeed, whether \<open>ashvatthaTree.invokeGod\<close> and the file system
  calls resolve, the hash git reports for a commit, for \<open>getWorktreeStats\<close> whether
  \<open>status\<close>/\<open>log\<close> resolve and what \<open>countFiles\<close> counts, the balance
  \<open>treeCoordinator.getTreeHealth().trunk.balance\<close>, the realm of the guidance
  \<open>invokeGod\<close> resolves to, and the hexadecimal rendering of \<open>crypto.randomBytes(4)\<close>.
\<close>

record env =
  now :: nat
  git_ok :: "git_cmd \<Rightarrow> bool"
  god_ok :: bool
  fs_ok :: bool
  commit_hash :: string
  stats_ok :: bool
  countFiles :: nat
  tree_balance :: real
  guidance_realm :: "string option"
  random_hex :: string

text \<open>Decimal rendering of a number inside a template string.\<close>

fun show_nat :: "nat \<Rightarrow> string" where
  "show_nat n =
     (if n < 10 then [''0123456789'' ! n]
      else show_nat (n div 10) @ [''0123456789'' ! (n mod 10)])"

declare show_nat.simps [simp del]

section \<open>WorktreeManager.js\<close>

datatype wt_status = WActive | WMerged | WMergeFailed | WCleaned

record wt_commit =
  wc_hash :: string
  wc_message :: string
  wc_mutation :: string
  wc_timestamp :: nat

record worktree =
  w_id :: string
  w_evolutionId :: string
  w_path :: string
  w_branchName :: string
  w_baseBranch :: string
  w_god :: string
  w_created :: nat
  w_status :: wt_status
  w_commits :: "wt_commit list"
  w_mutations :: nat
  w_fitness :: real
  w_mergedAt :: "nat option"
  w_mergedTo :: "string option"
  w_error :: "error option"

text \<open>The \<open>mutation\<close> argument of \<open>applyMutation\<close>.\<close>

record mutation_arg =
  ma_id :: string
  ma_type :: string
  ma_description :: "string option"

text \<open>
  The manager. \<open>this.worktrees\<close> is a JavaScript \<open>Map\<close>: an association list in
  insertion order, updated with \<open>AList.update\<close> (\<open>Map.set\<close>) and \<open>AList.delete\<close>
  (\<open>Map.delete\<close>); its \<open>size\<close> is the length of the list. \<open>git_issued\<close> is the log
  of the git calls made so far.
\<close>

record worktree_manager =
  worktrees :: "(string \<times> worktree) list"
  maxWorktrees :: nat
  worktreeDir :: string
  git_issued :: "git_cmd list"

definition new_WorktreeManager :: "string \<Rightarrow> worktree_manager" where
  "new_WorktreeManager repoPath =
     \<lparr>worktrees = [], maxWorktrees = 10,
      worktreeDir = repoPath @ ''/.gaia-worktrees'', git_issued = []\<rparr>"

definition createEvolutionWorktree ::
  "env \<Rightarrow> worktree_manager \<Rightarrow> string \<Rightarrow> string \<Rightarrow> string
    \<Rightarrow> (error + worktree) \<times> worktree_manager" where
  "createEvolutionWorktree e s evolutionId baseBranch godName =
     (if maxWorktrees s \<le> length (worktrees s) then (Inl CapacityExceeded, s)
      else
        let worktreeId = ''evolution_'' @ evolutionId @ ''_'' @ show_nat (now e);
            branchName = ''evolution/'' @ evolutionId;
            worktreePath = worktreeDir s @ ''/'' @ worktreeId
        in
          if \<not> god_ok e then (Inl ExternalFailure, s)
          else
            (case run_git (git_ok e)
                    [CheckoutLocalBranch branchName, Checkout baseBranch,
                     WorktreeAdd worktreePath branchName] (git_issued s) of
               (False, g) \<Rightarrow> (Inl VcsOperationFailure, s\<lparr>git_issued := g\<rparr>)
             | (True, g) \<Rightarrow>
                 let w = \<lparr>w_id = worktreeId, w_evolutionId = evolutionId,
                          w_path = worktreePath, w_branchName = branchName,
                          w_baseBranch = baseBranch, w_god = godName,
                          w_created = now e, w_status = WActive, w_commits = [],
                          w_mutations = 0, w_fitness = 0, w_mergedAt = None,
                          w_mergedTo = None, w_error = None\<rparr>
                 in (Inr w,
                     s\<lparr>git_issued := g,
                       worktrees := AList.update worktreeId w (worktrees s)\<rparr>)))"

text \<open>
  \<open>getWorktreeStats\<close> catches its own failures and then reports no files; only its
  \<open>fileCount\<close> is read by the fitness.
\<close>

definition getWorktreeStats_fileCount :: "env \<Rightarrow> worktree \<Rightarrow> nat" where
  "getWorktreeStats_fileCount e w = (if stats_ok e then countFiles e else 0)"

definition godBonuses :: "(string \<times> real) list" where
  "godBonuses =
     [(''Brahma'', 20), (''Vishnu'', 15), (''Shiva'', 25), (''Saraswati'', 18),
      (''Lakshmi'', 12), (''Kali'', 22), (''Durga'', 16)]"

text \<open>
  \<open>calculateWorktreeFitness\<close>, with JavaScript's numbers read as exact reals. Its
  \<open>catch\<close> branch (fitness 50) is not modelled: nothing in the \<open>try\<close> block can
  throw on a worktree record, \<open>getWorktreeStats\<close> having caught its own failures.
\<close>

definition calculateWorktreeFitness :: "env \<Rightarrow> worktree \<Rightarrow> real" where
  "calculateWorktreeFitness e w =
     (let fitness0 = real (length (w_commits w)) * 10;
          fitness1 = fitness0 + real (w_mutations w) * 5;
          fitness2 = fitness1 + (case map_of godBonuses (w_god w) of Some b \<Rightarrow> b | None \<Rightarrow> 10);
          ageInHours = (real (now e) - real (w_created w)) / (1000 * 60 * 60);
          timeFactor = max (1 / 2) (1 - ageInHours / 24);
          fitness3 = fitness2 * timeFactor;
          fitness4 = fitness3 + real (getWorktreeStats_fileCount e w) * 2
      in max 0 (min 100 fitness4))"

definition applyMutation ::
  "env \<Rightarrow> worktree_manager \<Rightarrow> string \<Rightarrow> mutation_arg \<Rightarrow> string
    \<Rightarrow> (error + worktree) \<times> worktree_manager" where
  "applyMutation e s worktreeId mutation commitMessage =
     (case map_of (worktrees s) worktreeId of
        None \<Rightarrow> (Inl NotFound, s)
      | Some w \<Rightarrow>
          if \<not> fs_ok e then (Inl ExternalFailure, s)
          else
            (case run_git (git_ok e)
                    [WtAddAll (w_path w),
                     WtCommit (w_path w) commitMessage (ma_id mutation) (w_god w)]
                    (git_issued s) of
               (False, g) \<Rightarrow> (Inl VcsOperationFailure, s\<lparr>git_issued := g\<rparr>)
             | (True, g) \<Rightarrow>
                 let c = \<lparr>wc_hash = commit_hash e, wc_message = commitMessage,
                          wc_mutation = ma_id mutation, wc_timestamp = now e\<rparr>;
                     w1 = w\<lparr>w_commits := w_commits w @ [c]\<rparr>;
                     w2 = w1\<lparr>w_mutations := w_mutations w1 + 1\<rparr>;
                     w3 = w2\<lparr>w_fitness := calculateWorktreeFitness e w2\<rparr>
                 in (Inr w3,
                     s\<lparr>git_issued := g,
                       worktrees := AList.update worktreeId w3 (worktrees s)\<rparr>)))"

definition mergeEvolution ::
  "env \<Rightarrow> worktree_manager \<Rightarrow> string \<Rightarrow> string \<Rightarrow> real
    \<Rightarrow> (error + bool) \<times> worktree_manager" where
  "mergeEvolution e s worktreeId targetBranch fitnessThreshold =
     (case map_of (worktrees s) worktreeId of
        None \<Rightarrow> (Inl NotFound, s)
      | Some w \<Rightarrow>
          if w_fitness w < fitnessThreshold then (Inr False, s)
          else
            (case run_git (git_ok e)
                    [Checkout targetBranch, MergeFromTo (w_branchName w) targetBranch]
                    (git_issued s) of
               (True, g) \<Rightarrow>
                 (Inr True,
                  s\<lparr>git_issued := g,
                    worktrees := AList.update worktreeId
                      (w\<lparr>w_status := WMerged, w_mergedAt := Some (now e),
                         w_mergedTo := Some targetBranch\<rparr>) (worktrees s)\<rparr>)
             | (False, g) \<Rightarrow>
                 (Inl VcsOperationFailure,
                  s\<lparr>git_issued := g,
                    worktrees := AList.update worktreeId
                      (w\<lparr>w_status := WMergeFailed,
                         w_error := Some VcsOperationFailure\<rparr>) (worktrees s)\<rparr>)))"

text \<open>
  \<open>cleanupWorktree\<close>: a rejected \<open>worktree remove\<close> is rethrown; a rejected branch
  deletion is caught and logged, and the cleanup goes on. The record is marked
  \<open>cleaned\<close> and then dropped from the map, so the mark is visible only to the
  listeners of the \<open>worktree:cleaned\<close> event, which the model leaves out.
\<close>

definition cleanupWorktree ::
  "env \<Rightarrow> worktree_manager \<Rightarrow> string \<Rightarrow> (error + unit) \<times> worktree_manager" where
  "cleanupWorktree e s worktreeId =
     (case map_of (worktrees s) worktreeId of
        None \<Rightarrow> (Inl NotFound, s)
      | Some w \<Rightarrow>
          let g1 = git_issued s @ [WorktreeRemove (w_path w)] in
            if \<not> git_ok e (WorktreeRemove (w_path w))
            then (Inl VcsOperationFailure, s\<lparr>git_issued := g1\<rparr>)
            else
              let g2 = g1 @ [DeleteLocalBranch (w_branchName w)] in
                (Inr (),
                 s\<lparr>git_issued := g2,
                   worktrees := AList.delete worktreeId (worktrees s)\<rparr>))"

text \<open>The \<open>active\<close> count of \<open>getWorktreesStatus\<close>.\<close>

definition getWorktreesStatus_active :: "worktree_manager \<Rightarrow> nat" where
  "getWorktreesStatus_active s =
     length (filter (\<lambda>w. w_status w = WActive) (map snd (worktrees s)))"

definition getWorktree :: "worktree_manager \<Rightarrow> string \<Rightarrow> worktree option" where
  "getWorktree s worktreeId = map_of (worktrees s) worktreeId"

subsection \<open>The fitness formula as the specification words it\<close>

text \<open>
  The specification's \<open>clamp(0, 100, base(commits, changes) * timeDecay(age) + policyBonus)\<close>,
  for any function \<open>base\<close> of the two counts: the time decay falls linearly from 1 and
  is floored at one half, with a window of 24 hours; the policy bonus is the lookup in
  the table of the code, 10 for a tag the table does not list.
\<close>

definition clamp :: "real \<Rightarrow> real \<Rightarrow> real \<Rightarrow> real" where
  "clamp lo hi x = max lo (min hi x)"

definition timeDecay :: "real \<Rightarrow> real" where
  "timeDecay hours = max (1 / 2) (1 - hours / 24)"

definition policyBonus :: "string \<Rightarrow> real" where
  "policyBonus tag = (case map_of godBonuses tag of Some b \<Rightarrow> b | None \<Rightarrow> 10)"

definition ageInHours :: "env \<Rightarrow> worktree \<Rightarrow> real" where
  "ageInHours e w = (real (now e) - real (w_created w)) / 3600000"

definition claimed_fitness :: "(nat \<Rightarrow> nat \<Rightarrow> real) \<Rightarrow> env \<Rightarrow> worktree \<Rightarrow> real" where
  "claimed_fitness base e w =
     clamp 0 100
       (base (length (w_commits w)) (w_mutations w) * timeDecay (ageInHours e w)
        + policyBonus (w_god w))"

section \<open>MutationBrancher.js\<close>

datatype mu_status = MActive | MMerged | MMergeFailed | MAbandoned | MError

record mu_commit =
  mc_hash :: string
  mc_message :: string
  mc_timestamp :: nat
  mc_changes :: nat

record mutation =
  m_id :: string
  m_type :: string
  m_branchName :: string
  m_baseBranch :: string
  m_god :: string
  m_created :: nat
  m_status :: mu_status
  m_commits :: "mu_commit list"
  m_changes :: "string list"
  m_fitness :: real
  m_realm :: "string option"
  m_realmBalance :: real
  m_lastModified :: "nat option"
  m_mergedAt :: "nat option"
  m_mergedTo :: "string option"
  m_abandonedAt :: "nat option"
  m_abandonReason :: "string option"
  m_error :: "error option"

text \<open>
  The brancher. \<open>mutationBranches\<close> is a \<open>Map\<close> (an association list, as above) and
  never loses an entry. \<open>activeMutations\<close> is a \<open>Set\<close> of ids: a duplicate-free list
  in insertion order. \<open>branchHistory\<close> is an array of references to mutation objects
  that stay in \<open>mutationBranches\<close>, so the model stores their ids. \<open>balance_calls\<close>
  logs the calls of \<open>treeCoordinator.balanceForces\<close>.
\<close>

record mutation_brancher =
  mutationBranches :: "(string \<times> mutation) list"
  branchHistory :: "string list"
  activeMutations :: "string list"
  maxConcurrentMutations :: nat
  mb_git_issued :: "git_cmd list"
  balance_calls :: "(real \<times> real) list"

definition new_MutationBrancher :: mutation_brancher where
  "new_MutationBrancher =
     \<lparr>mutationBranches = [], branchHistory = [], activeMutations = [],
      maxConcurrentMutations = 8, mb_git_issued = [], balance_calls = []\<rparr>"

definition set_add :: "string \<Rightarrow> string list \<Rightarrow> string list" where
  "set_add x xs = (if x \<in> set xs then xs else xs @ [x])"

definition generateMutationId :: "env \<Rightarrow> string \<Rightarrow> string" where
  "generateMutationId e ty = ty @ ''_'' @ show_nat (now e) @ ''_'' @ random_hex e"

definition mutationGodMappings :: "(string \<times> string) list" where
  "mutationGodMappings =
     [(''refactor'', ''modi''), (''optimize'', ''freyr''), (''debug'', ''thor''),
      (''security'', ''heimdall''), (''cleanup'', ''vidar''), (''ui'', ''baldr''),
      (''docs'', ''bragi''), (''breaking'', ''shiva''), (''removal'', ''kali''),
      (''deprecate'', ''yama''), (''legacy'', ''jyestha''), (''architecture'', ''odin''),
      (''performance'', ''thor''), (''testing'', ''thor''), (''api'', ''hermes''),
      (''evolution'', ''brahma'')]"

definition selectGodForMutation :: "string \<Rightarrow> string" where
  "selectGodForMutation mutationType =
     (case map_of mutationGodMappings mutationType of Some g \<Rightarrow> g | None \<Rightarrow> ''odin'')"

text \<open>\<open>godName\<close> is optional; \<open>null\<close> and the empty string are both falsy.\<close>

definition createMutationBranch ::
  "env \<Rightarrow> mutation_brancher \<Rightarrow> string \<Rightarrow> string \<Rightarrow> string option
    \<Rightarrow> (error + mutation) \<times> mutation_brancher" where
  "createMutationBranch e s mutationType baseBranch godName =
     (if maxConcurrentMutations s \<le> length (activeMutations s) then (Inl CapacityExceeded, s)
      else
        let mutationId = generateMutationId e mutationType;
            branchName = ''mutation/'' @ mutationType @ ''/'' @ mutationId;
            god = (case godName of
                     None \<Rightarrow> selectGodForMutation mutationType
                   | Some g \<Rightarrow> if g = [] then selectGodForMutation mutationType else g)
        in
          if \<not> god_ok e then (Inl ExternalFailure, s)
          else
            (case run_git (git_ok e) [Checkout baseBranch, CheckoutLocalBranch branchName]
                    (mb_git_issued s) of
               (False, g) \<Rightarrow> (Inl VcsOperationFailure, s\<lparr>mb_git_issued := g\<rparr>)
             | (True, g) \<Rightarrow>
                 let m = \<lparr>m_id = mutationId, m_type = mutationType,
                          m_branchName = branchName, m_baseBranch = baseBranch,
                          m_god = god, m_created = now e, m_status = MActive,
                          m_commits = [], m_changes = [], m_fitness = 0,
                          m_realm = guidance_realm e, m_realmBalance = tree_balance e,
                          m_lastModified = None, m_mergedAt = None, m_mergedTo = None,
                          m_abandonedAt = None, m_abandonReason = None, m_error = None\<rparr>
                 in (Inr m,
                     s\<lparr>mb_git_issued := g,
                       mutationBranches := AList.update mutationId m (mutationBranches s),
                       activeMutations := set_add mutationId (activeMutations s)\<rparr>)))"





definition mergeMutation ::
  "env \<Rightarrow> mutation_brancher \<Rightarrow> string \<Rightarrow> string \<Rightarrow> real
    \<Rightarrow> (error + bool) \<times> mutation_brancher" where
  "mergeMutation e s mutationId targetBranch fitnessThreshold =
     (case map_of (mutationBranches s) mutationId of
        None \<Rightarrow> (Inl NotFound, s)
      | Some m \<Rightarrow>
          if m_fitness m < fitnessThreshold then (Inr False, s)
          else
            (case run_git (git_ok e)
                    [Checkout targetBranch, MergeFromTo (m_branchName m) targetBranch]
                    (mb_git_issued s) of
               (True, g) \<Rightarrow>
                 (Inr True,
                  s\<lparr>mb_git_issued := g,
                    mutationBranches := AList.update mutationId
                      (m\<lparr>m_status := MMerged, m_mergedAt := Some (now e),
                         m_mergedTo := Some targetBranch\<rparr>) (mutationBranches s),
                    activeMutations := removeAll mutationId (activeMutations s),
                    branchHistory := branchHistory s @ [mutationId],
                    balance_calls := balance_calls s @
                      [(if m_realm m = Some ''light'' then 10 else 0,
                        if m_realm m = Some ''shadow'' then 10 else 0)]\<rparr>)
             | (False, g) \<Rightarrow>
                 (Inl VcsOperationFailure,
                  s\<lparr>mb_git_issued := g,
                    mutationBranches := AList.update mutationId
                      (m\<lparr>m_status := MMergeFailed, m_error := Some VcsOperationFailure\<rparr>)
                      (mutationBranches s)\<rparr>)))"


section \<open>JavaScript numbers\<close>

text \<open>
  A JavaScript number with its special values and without rounding: a finite number is
  an exact real (no operation on finite numbers overflows), and the two zeros are one.
  Comparisons with \<open>NaN\<close> are false and arithmetic on \<open>NaN\<close> gives \<open>NaN\<close>, as
  IEEE 754 has it. A property that is
  \<open>undefined\<close> behaves as \<open>NaN\<close> in the comparisons and subtractions below.
\<close>

datatype jsnum = Num real | PosInf | NegInf | NaN

fun js_lt :: "jsnum \<Rightarrow> jsnum \<Rightarrow> bool" where
  "js_lt (Num x) (Num y) = (x < y)"
| "js_lt (Num x) PosInf = True"
| "js_lt (Num x) NegInf = False"
| "js_lt (Num x) NaN = False"
| "js_lt PosInf b = False"
| "js_lt NegInf (Num y) = True"
| "js_lt NegInf PosInf = True"
| "js_lt NegInf NegInf = False"
| "js_lt NegInf NaN = False"
| "js_lt NaN b = False"

definition js_gt :: "jsnum \<Rightarrow> jsnum \<Rightarrow> bool" where
  "js_gt a b = js_lt b a"

fun js_neg :: "jsnum \<Rightarrow> jsnum" where
  "js_neg (Num x) = Num (- x)"
| "js_neg PosInf = NegInf"
| "js_neg NegInf = PosInf"
| "js_neg NaN = NaN"

fun js_add :: "jsnum \<Rightarrow> jsnum \<Rightarrow> jsnum" where
  "js_add (Num x) (Num y) = Num (x + y)"
| "js_add (Num x) b = b"
| "js_add PosInf (Num y) = PosInf"
| "js_add PosInf PosInf = PosInf"
| "js_add PosInf NegInf = NaN"
| "js_add PosInf NaN = NaN"
| "js_add NegInf (Num y) = NegInf"
| "js_add NegInf NegInf = NegInf"
| "js_add NegInf PosInf = NaN"
| "js_add NegInf NaN = NaN"
| "js_add NaN b = NaN"

definition js_sub :: "jsnum \<Rightarrow> jsnum \<Rightarrow> jsnum" where
  "js_sub a b = js_add a (js_neg b)"

fun js_abs :: "jsnum \<Rightarrow> jsnum" where
  "js_abs (Num x) = Num \<bar>x\<bar>"
| "js_abs PosInf = PosInf"
| "js_abs NegInf = PosInf"
| "js_abs NaN = NaN"


fun js_div :: "jsnum \<Rightarrow> jsnum \<Rightarrow> jsnum" where
  "js_div (Num x) (Num y) =
     (if y = 0 then (if x = 0 then NaN else if 0 < x then PosInf else NegInf)
      else Num (x / y))"
| "js_div (Num x) PosInf = Num 0"
| "js_div (Num x) NegInf = Num 0"
| "js_div (Num x) NaN = NaN"
| "js_div PosInf (Num y) = (if 0 \<le> y then PosInf else NegInf)"
| "js_div PosInf b = NaN"
| "js_div NegInf (Num y) = (if 0 \<le> y then NegInf else PosInf)"
| "js_div NegInf b = NaN"
| "js_div NaN b = NaN"


text \<open>
  \<open>Array.prototype.sort\<close> with a comparator: two elements are exchanged only when the
  comparator is positive (\<open>NaN\<close> counts as zero), and the sort is stable. For a
  consistent comparator the result is the one ECMAScript prescribes; for an
  inconsistent one ECMAScript leaves the order to the implementation, and the model
  gives the order of an insertion sort.
\<close>

definition js_positive :: "jsnum \<Rightarrow> bool" where
  "js_positive v = js_lt (Num 0) v"

fun sort_insert :: "('a \<Rightarrow> 'a \<Rightarrow> jsnum) \<Rightarrow> 'a \<Rightarrow> 'a list \<Rightarrow> 'a list" where
  "sort_insert cmp x [] = [x]"
| "sort_insert cmp x (y # ys) =
     (if js_positive (cmp x y) then y # sort_insert cmp x ys else x # y # ys)"

definition js_sort :: "('a \<Rightarrow> 'a \<Rightarrow> jsnum) \<Rightarrow> 'a list \<Rightarrow> 'a list" where
  "js_sort cmp xs = foldr (sort_insert cmp) xs []"

text \<open>
  A JavaScript value as far as \<open>evaluateSolution\<close> can tell values apart: a number, or a
  value that is not a number and has no \<open>toFixed\<close> method (\<open>undefined\<close>, \<open>null\<close>, a
  string, a boolean, a plain object).
\<close>

datatype jsval = Number jsnum | NotNumber

text \<open>The number among the values of a map; a value that is not a number has none.\<close>

definition numbers :: "(string \<Rightarrow> jsval option) \<Rightarrow> string \<Rightarrow> jsnum option" where
  "numbers objectiveValues k =
     (case objectiveValues k of Some (Number v) \<Rightarrow> Some v | _ \<Rightarrow> None)"


section \<open>MultiObjectiveOptimizer\<close>

record objective =
  o_name :: string
  o_weight :: real
  o_maximize :: bool
  o_divine_patron :: string
  o_history :: "(string \<times> jsval) list"

text \<open>
  \<open>this.objectives\<close> after the constructor has run \<open>initializeObjectives\<close>: a \<open>Map\<close>
  from objective id to its configuration, in insertion order.
\<close>

definition defaultObjectives :: "(string \<times> objective) list" where
  "defaultObjectives =
     [(''performance'',
        \<lparr>o_name = ''Performance'', o_weight = 1, o_maximize = True,
         o_divine_patron = ''thor'', o_history = []\<rparr>),
      (''maintainability'',
        \<lparr>o_name = ''Maintainability'', o_weight = 1, o_maximize = True,
         o_divine_patron = ''odin'', o_history = []\<rparr>),
      (''complexity'',
        \<lparr>o_name = ''Complexity'', o_weight = 1, o_maximize = False,
         o_divine_patron = ''vidar'', o_history = []\<rparr>),
      (''security'',
        \<lparr>o_name = ''Security'', o_weight = 1, o_maximize = True,
         o_divine_patron = ''heimdall'', o_history = []\<rparr>),
      (''innovation'',
        \<lparr>o_name = ''Innovation'', o_weight = 8 / 10, o_maximize = True,
         o_divine_patron = ''loki'', o_history = []\<rparr>),
      (''divine_harmony'',
        \<lparr>o_name = ''Divine Harmony'', o_weight = 6 / 10, o_maximize = True,
         o_divine_patron = ''baldr'', o_history = []\<rparr>)]"

record blessing =
  b_god :: string
  b_objective :: string
  b_strength :: jsnum

record evaluation =
  e_solutionId :: string
  e_objectives :: "string \<Rightarrow> jsnum option"
  e_divineBlessing :: "blessing option"
  e_dominationCount :: int
  e_dominatedSolutions :: "string list"
  e_rank :: nat
  e_crowdingDistance :: jsnum

text \<open>
  A candidate is a solution object before its evaluation: the offspring objects that
  \<open>crossover\<close> builds have exactly these fields. \<open>c_properties\<close> is \<open>None\<close> for an
  object without a \<open>properties\<close> field.
\<close>

record candidate =
  c_id :: string
  c_type :: string
  c_parents :: "string list"
  c_generation :: nat
  c_properties :: "(string \<times> jsnum) list option"
  c_created :: nat

subsection \<open>evaluateSolution\<close>

text \<open>
  What the call \<open>objective.evaluationFunction(solution, objectiveId).then(\<dots>)\<close> can do.
  \<open>Throws\<close>: the evaluator throws before it returns (it is not an \<open>async\<close>
  function), or what it returns has no \<open>then\<close> method. \<open>Resolved v\<close>: it returns a
  promise that resolves to \<open>v\<close>. \<open>Rejected r\<close>: it returns a promise that is rejected
  (an \<open>async\<close> evaluator that throws), with a reason that is \<open>undefined\<close> or \<open>null\<close>
  (\<open>Nullish\<close>) or any other value, such as an \<open>Error\<close> (\<open>Thrown\<close>). \<open>Pending\<close>: it
  returns a promise that is never settled.
\<close>

datatype reason = Nullish | Thrown

datatype eval_result = Resolved jsval | Rejected reason | Pending | Throws

text \<open>
  The ways in which \<open>evaluateSolution\<close> itself fails. Its promise is rejected when the
  call of an evaluator throws inside the loop; when the \<open>catch\<close> handler throws at
  \<open>error.message\<close> because the reason is \<open>undefined\<close> or \<open>null\<close>, so that
  \<open>Promise.all\<close> is rejected; and when the log line throws at \<open>v.toFixed(1)\<close> because
  a stored value is not a number. Its promise is never settled when \<open>Promise.all\<close> is
  not: no promise is rejected and one is never settled.
\<close>

datatype failure = CallThrew | HandlerThrew | NeverSettles | LogThrew

text \<open>
  The handlers of the promises of the objectives whose evaluator has been called. The
  \<open>then\<close> handler stores the value and appends to the history of the objective; the
  \<open>catch\<close> handler reads \<open>error.message\<close> and then stores 0, so with a reason that
  is \<open>undefined\<close> or \<open>null\<close> it stores nothing.
\<close>

fun eval_objectives ::
  "(string \<Rightarrow> candidate \<Rightarrow> eval_result) \<Rightarrow> candidate \<Rightarrow> (string \<times> objective) list
    \<Rightarrow> (string \<Rightarrow> jsval option) \<times> (string \<times> objective) list" where
  "eval_objectives evaluationFunction solution [] = (Map.empty, [])"
| "eval_objectives evaluationFunction solution ((objectiveId, objective) # rest) =
     (let r = eval_objectives evaluationFunction solution rest in
        (case evaluationFunction objectiveId solution of
           Resolved v \<Rightarrow>
             ((fst r)(objectiveId \<mapsto> v),
              (objectiveId,
               objective\<lparr>o_history := o_history objective @ [(c_id solution, v)]\<rparr>) # snd r)
         | Rejected Thrown \<Rightarrow>
             ((fst r)(objectiveId \<mapsto> Number (Num 0)), (objectiveId, objective) # snd r)
         | Rejected Nullish \<Rightarrow> (fst r, (objectiveId, objective) # snd r)
         | Pending \<Rightarrow> (fst r, (objectiveId, objective) # snd r)
         | Throws \<Rightarrow> (fst r, (objectiveId, objective) # snd r)))"

text \<open>
  \<open>getDivineBlessing\<close>: the objective whose normalised value is the first strict
  maximum among \<open>Object.entries(objectiveValues)\<close>. An entry whose id is not registered
  makes \<open>objective.maximize\<close> throw (\<open>None\<close>); this and a rejected \<open>invokeGod\<close> are
  caught and give \<open>null\<close>. (\<open>invokeGod\<close> is the repository's own: it is rejected, with
  an \<open>Error\<close>, for a name that is not in its pantheon.)
\<close>

fun best_objective ::
  "(string \<times> objective) list \<Rightarrow> (string \<times> jsnum) list \<Rightarrow> objective option \<times> jsnum
    \<Rightarrow> (objective option \<times> jsnum) option" where
  "best_objective objs [] acc = Some acc"
| "best_objective objs ((objectiveId, v) # rest) (bestObjective, bestValue) =
     (case map_of objs objectiveId of
        None \<Rightarrow> None
      | Some objective \<Rightarrow>
          (let normalizedValue = (if o_maximize objective then v else js_sub (Num 100) v)
           in best_objective objs rest
                (if js_gt normalizedValue bestValue then (Some objective, normalizedValue)
                 else (bestObjective, bestValue))))"

definition getDivineBlessing ::
  "bool \<Rightarrow> (string \<times> objective) list \<Rightarrow> (string \<times> jsnum) list \<Rightarrow> blessing option" where
  "getDivineBlessing invoke_ok objs entries =
     (case best_objective objs entries (None, Num (- 1)) of
        None \<Rightarrow> None
      | Some (None, bestValue) \<Rightarrow> None
      | Some (Some bestObjective, bestValue) \<Rightarrow>
          if invoke_ok
          then Some \<lparr>b_god = o_divine_patron bestObjective, b_objective = o_name bestObjective,
                     b_strength = js_div bestValue (Num 100)\<rparr>
          else None)"

text \<open>
  \<open>Object.entries\<close> of a map of numbers. \<open>entriesOrder\<close> lists the ids in the order
  in which \<open>Object.entries\<close> gives them: ids that are array indices first, then the
  others in the order in which the handlers stored their values.
\<close>

definition entries_of ::
  "string list \<Rightarrow> (string \<Rightarrow> jsnum option) \<Rightarrow> (string \<times> jsnum) list" where
  "entries_of entriesOrder objectiveValues =
     List.map_filter (\<lambda>k. map_option (Pair k) (objectiveValues k)) entriesOrder"

text \<open>
  \<open>evaluateSolution\<close> returns the evaluation or the way it failed, and the objectives
  with their histories. \<open>called\<close> are the objectives reached by the loop: the call of
  an evaluator that throws ends the loop and the evaluation, and the handlers of the
  promises made before still run. The blessing is asked for before the log line; the
  evaluation that holds it is returned only when the log line does not throw, and then
  every stored value is a number. The solution is an ordinary object, and no listener
  of the event \<open>solution:evaluated\<close> throws (the repository registers none).
\<close>

definition evaluateSolution ::
  "(string \<Rightarrow> candidate \<Rightarrow> eval_result) \<Rightarrow> string list \<Rightarrow> bool \<Rightarrow> (string \<times> objective) list
    \<Rightarrow> candidate \<Rightarrow> (failure + evaluation) \<times> (string \<times> objective) list" where
  "evaluateSolution evaluationFunction entriesOrder invoke_ok objs solution =
     (let called = takeWhile (\<lambda>entry. evaluationFunction (fst entry) solution \<noteq> Throws) objs;
          r = eval_objectives evaluationFunction solution called;
          objectiveValues = fst r;
          objs' = snd r @ drop (length called) objs
      in if length called < length objs then (Inl CallThrew, objs')
         else if list_ex (\<lambda>entry. evaluationFunction (fst entry) solution = Rejected Nullish) objs
         then (Inl HandlerThrew, objs')
         else if list_ex (\<lambda>entry. evaluationFunction (fst entry) solution = Pending) objs
         then (Inl NeverSettles, objs')
         else
           (let divineBlessing =
                  getDivineBlessing invoke_ok objs
                    (entries_of entriesOrder (numbers objectiveValues))
            in if list_ex (\<lambda>entry. objectiveValues (fst entry) = Some NotNumber) objs
               then (Inl LogThrew, objs')
               else (Inr \<lparr>e_solutionId = c_id solution, e_objectives = numbers objectiveValues,
                          e_divineBlessing = divineBlessing, e_dominationCount = 0,
                          e_dominatedSolutions = [], e_rank = 0, e_crowdingDistance = Num 0\<rparr>,
                     objs')))"

subsection \<open>Evaluated solutions in the heap\<close>

text \<open>
  The sort, the crowding distance and the selection work on arrays of references to
  solution objects and write to the \<open>evaluation\<close> of these objects. A population or a
  front is a list of addresses, and the heap maps an address to the object: its id and
  its evaluation. (On an object without an evaluation the JavaScript throws at the
  first access; the heap holds evaluated solutions only.)
\<close>

record solution =
  s_id :: string
  s_evaluation :: evaluation

definition upd_eval ::
  "('a \<Rightarrow> solution) \<Rightarrow> 'a \<Rightarrow> (evaluation \<Rightarrow> evaluation) \<Rightarrow> ('a \<Rightarrow> solution)" where
  "upd_eval h a f = h(a := (h a)\<lparr>s_evaluation := f (s_evaluation (h a))\<rparr>)"

definition objval :: "solution \<Rightarrow> string \<Rightarrow> jsnum" where
  "objval s objectiveId =
     (case e_objectives (s_evaluation s) objectiveId of Some v \<Rightarrow> v | None \<Rightarrow> NaN)"

definition count_of :: "('a \<Rightarrow> solution) \<Rightarrow> 'a \<Rightarrow> int" where
  "count_of h a = e_dominationCount (s_evaluation (h a))"

definition dominated_of :: "('a \<Rightarrow> solution) \<Rightarrow> 'a \<Rightarrow> string list" where
  "dominated_of h a = e_dominatedSolutions (s_evaluation (h a))"

definition cd_of :: "('a \<Rightarrow> solution) \<Rightarrow> 'a \<Rightarrow> jsnum" where
  "cd_of h a = e_crowdingDistance (s_evaluation (h a))"

subsection \<open>dominates\<close>

fun dominates_loop ::
  "(string \<times> objective) list \<Rightarrow> solution \<Rightarrow> solution \<Rightarrow> bool \<Rightarrow> bool" where
  "dominates_loop [] solution1 solution2 atLeastOneObjectiveBetter = atLeastOneObjectiveBetter"
| "dominates_loop ((objectiveId, objective) # rest) solution1 solution2 atLeastOneObjectiveBetter =
     (let value1 = objval solution1 objectiveId;
          value2 = objval solution2 objectiveId
      in if o_maximize objective then
           (if js_lt value1 value2 then False
            else dominates_loop rest solution1 solution2
                   (if js_gt value1 value2 then True else atLeastOneObjectiveBetter))
         else
           (if js_gt value1 value2 then False
            else dominates_loop rest solution1 solution2
                   (if js_lt value1 value2 then True else atLeastOneObjectiveBetter)))"

definition dominates :: "(string \<times> objective) list \<Rightarrow> solution \<Rightarrow> solution \<Rightarrow> bool" where
  "dominates objs solution1 solution2 = dominates_loop objs solution1 solution2 False"

subsection \<open>fastNonDominatedSort\<close>

text \<open>The inner loop of the first phase: one solution against every member.\<close>

fun compare_others ::
  "(string \<times> objective) list \<Rightarrow> ('a \<Rightarrow> solution) \<Rightarrow> 'a \<Rightarrow> 'a list \<Rightarrow> ('a \<Rightarrow> solution)" where
  "compare_others objs h solution [] = h"
| "compare_others objs h solution (otherSolution # rest) =
     (if s_id (h solution) = s_id (h otherSolution) then compare_others objs h solution rest
      else if dominates objs (h solution) (h otherSolution) then
        compare_others objs
          (upd_eval h solution
             (\<lambda>e. e\<lparr>e_dominatedSolutions :=
                       set_add (s_id (h otherSolution)) (e_dominatedSolutions e)\<rparr>))
          solution rest
      else if dominates objs (h otherSolution) (h solution) then
        compare_others objs
          (upd_eval h solution (\<lambda>e. e\<lparr>e_dominationCount := e_dominationCount e + 1\<rparr>))
          solution rest
      else compare_others objs h solution rest)"

text \<open>The first phase: the outer loop, which also fills front 0.\<close>

fun init_counts ::
  "(string \<times> objective) list \<Rightarrow> 'a list \<Rightarrow> ('a \<Rightarrow> solution) \<Rightarrow> 'a list \<Rightarrow> 'a list
    \<Rightarrow> ('a \<Rightarrow> solution) \<times> 'a list" where
  "init_counts objs population h front0 [] = (h, front0)"
| "init_counts objs population h front0 (solution # rest) =
     (let h1 = upd_eval h solution
                 (\<lambda>e. e\<lparr>e_dominationCount := 0, e_dominatedSolutions := []\<rparr>);
          h2 = compare_others objs h1 solution population
      in if count_of h2 solution = 0
         then init_counts objs population
                (upd_eval h2 solution (\<lambda>e. e\<lparr>e_rank := 0\<rparr>)) (front0 @ [solution]) rest
         else init_counts objs population h2 front0 rest)"

text \<open>
  The second phase. \<open>release\<close> is the body of the innermost loop for one dominated
  id: \<open>population.find\<close> gives the first member with that id, and \<open>release_found\<close>
  is what is done to a member that was found.
\<close>

definition release_found ::
  "nat \<Rightarrow> ('a \<Rightarrow> solution) \<times> 'a list \<Rightarrow> 'a \<Rightarrow> ('a \<Rightarrow> solution) \<times> 'a list" where
  "release_found frontIndex acc dominatedSolution =
     (let h1 = upd_eval (fst acc) dominatedSolution
                 (\<lambda>e. e\<lparr>e_dominationCount := e_dominationCount e - 1\<rparr>)
      in if count_of h1 dominatedSolution = 0
         then (upd_eval h1 dominatedSolution (\<lambda>e. e\<lparr>e_rank := frontIndex + 1\<rparr>),
               snd acc @ [dominatedSolution])
         else (h1, snd acc))"

definition release ::
  "'a list \<Rightarrow> nat \<Rightarrow> ('a \<Rightarrow> solution) \<times> 'a list \<Rightarrow> string \<Rightarrow> ('a \<Rightarrow> solution) \<times> 'a list" where
  "release population frontIndex acc dominatedId =
     (case find (\<lambda>s. s_id (fst acc s) = dominatedId) population of
        None \<Rightarrow> acc
      | Some dominatedSolution \<Rightarrow> release_found frontIndex acc dominatedSolution)"

definition process_solution ::
  "'a list \<Rightarrow> nat \<Rightarrow> ('a \<Rightarrow> solution) \<times> 'a list \<Rightarrow> 'a \<Rightarrow> ('a \<Rightarrow> solution) \<times> 'a list" where
  "process_solution population frontIndex acc solution =
     fold (\<lambda>dominatedId acc'. release population frontIndex acc' dominatedId)
       (dominated_of (fst acc) solution) acc"

definition process_front ::
  "'a list \<Rightarrow> nat \<Rightarrow> ('a \<Rightarrow> solution) \<Rightarrow> 'a list \<Rightarrow> ('a \<Rightarrow> solution) \<times> 'a list" where
  "process_front population frontIndex h front =
     fold (\<lambda>solution acc. process_solution population frontIndex acc solution) front (h, [])"

text \<open>
  Every push onto the next front takes one member from the set of members whose count
  is still positive, and no count ever grows: this is why the \<open>while\<close> loop ends.
\<close>

definition waiting :: "'a list \<Rightarrow> ('a \<Rightarrow> solution) \<Rightarrow> 'a set" where
  "waiting population h = {a \<in> set population. 0 < count_of h a}"


definition shrinks ::
  "'a list \<Rightarrow> ('a \<Rightarrow> solution) \<times> 'a list \<Rightarrow> ('a \<Rightarrow> solution) \<times> 'a list \<Rightarrow> bool" where
  "shrinks population acc acc' \<longleftrightarrow>
     waiting population (fst acc') \<subseteq> waiting population (fst acc) \<and>
     length (snd acc) \<le> length (snd acc') \<and>
     (length (snd acc) < length (snd acc')
        \<longrightarrow> waiting population (fst acc') \<noteq> waiting population (fst acc))"

lemma count_of_upd_eval:
  "count_of (upd_eval h a f) b =
     (if b = a then e_dominationCount (f (s_evaluation (h a))) else count_of h b)"
  by (simp add: count_of_def upd_eval_def)

lemma s_id_upd_eval: "s_id (upd_eval h a f b) = s_id (h b)"
  by (simp add: upd_eval_def)

lemma shrinks_refl: "shrinks population acc acc"
  by (simp add: shrinks_def)

lemma shrinks_trans:
  assumes ab: "shrinks population a b" and bc: "shrinks population b c"
  shows "shrinks population a c"
proof -
  let ?W = "\<lambda>x. waiting population (fst x)"
  from ab bc have sub: "?W b \<subseteq> ?W a" "?W c \<subseteq> ?W b"
    and len: "length (snd a) \<le> length (snd b)" "length (snd b) \<le> length (snd c)"
    by (simp_all add: shrinks_def)
  have strict: "?W c \<noteq> ?W a" if lt: "length (snd a) < length (snd c)"
  proof -
    from lt len consider "length (snd a) < length (snd b)" | "length (snd b) < length (snd c)"
      by linarith
    then show ?thesis
    proof cases
      case 1
      with ab have "?W b \<noteq> ?W a" by (simp add: shrinks_def)
      with sub show ?thesis by blast
    next
      case 2
      with bc have "?W c \<noteq> ?W b" by (simp add: shrinks_def)
      with sub show ?thesis by blast
    qed
  qed
  from sub len strict show ?thesis
    unfolding shrinks_def by (meson order_trans)
qed

lemma find_in_set: "find p xs = Some x \<Longrightarrow> x \<in> set xs \<and> p x"
  by (induction xs) (auto split: if_splits)

lemma shrinks_release_found:
  assumes d: "d \<in> set population"
  shows "shrinks population acc (release_found frontIndex acc d)"
proof -
  let ?h1 = "upd_eval (fst acc) d (\<lambda>e. e\<lparr>e_dominationCount := e_dominationCount e - 1\<rparr>)"
  have c1: "count_of ?h1 b = (if b = d then count_of (fst acc) d - 1 else count_of (fst acc) b)" for b
    by (simp add: count_of_def upd_eval_def)
  show ?thesis
  proof (cases "count_of ?h1 d = 0")
    case True
    let ?h2 = "upd_eval ?h1 d (\<lambda>e. e\<lparr>e_rank := frontIndex + 1\<rparr>)"
    have c2: "count_of ?h2 b = count_of ?h1 b" for b
      by (simp add: count_of_def upd_eval_def)
    from True c1 have one: "count_of (fst acc) d = 1" by simp
    have le: "count_of ?h2 x \<le> count_of (fst acc) x" for x
      unfolding c2 c1 by simp
    have sub: "waiting population ?h2 \<subseteq> waiting population (fst acc)"
    proof
      fix x
      assume "x \<in> waiting population ?h2"
      then have "x \<in> set population" and "0 < count_of ?h2 x"
        by (simp_all add: waiting_def)
      with le [of x] show "x \<in> waiting population (fst acc)"
        by (simp add: waiting_def)
    qed
    have "d \<in> waiting population (fst acc)" using d one by (simp add: waiting_def)
    moreover have "count_of ?h2 d = 0" unfolding c2 using True by simp
    then have "d \<notin> waiting population ?h2" by (simp add: waiting_def)
    ultimately have ne: "waiting population ?h2 \<noteq> waiting population (fst acc)" by blast
    from True have "release_found frontIndex acc d = (?h2, snd acc @ [d])"
      by (simp add: release_found_def Let_def)
    with sub ne show ?thesis by (simp add: shrinks_def)
  next
    case False
    have le: "count_of ?h1 x \<le> count_of (fst acc) x" for x
      unfolding c1 by simp
    have sub: "waiting population ?h1 \<subseteq> waiting population (fst acc)"
    proof
      fix x
      assume "x \<in> waiting population ?h1"
      then have "x \<in> set population" and "0 < count_of ?h1 x"
        by (simp_all add: waiting_def)
      with le [of x] show "x \<in> waiting population (fst acc)"
        by (simp add: waiting_def)
    qed
    from False have "release_found frontIndex acc d = (?h1, snd acc)"
      by (simp add: release_found_def Let_def)
    with sub show ?thesis by (simp add: shrinks_def)
  qed
qed

lemma shrinks_release: "shrinks population acc (release population frontIndex acc dominatedId)"
proof (cases "find (\<lambda>s. s_id (fst acc s) = dominatedId) population")
  case None
  then show ?thesis by (simp add: release_def shrinks_refl)
next
  case (Some d)
  then have "d \<in> set population" by (auto dest: find_in_set)
  from shrinks_release_found [OF this] Some show ?thesis by (simp add: release_def)
qed

lemma shrinks_fold_release:
  "shrinks population acc
     (fold (\<lambda>dominatedId acc'. release population frontIndex acc' dominatedId) ids acc)"
proof (induction ids arbitrary: acc)
  case Nil
  show ?case by (simp add: shrinks_refl)
next
  case (Cons i ids)
  show ?case
    using shrinks_trans [OF shrinks_release Cons.IH] by simp
qed

lemma shrinks_process_solution:
  "shrinks population acc (process_solution population frontIndex acc solution)"
  unfolding process_solution_def by (rule shrinks_fold_release)

lemma shrinks_fold_process_solution:
  "shrinks population acc
     (fold (\<lambda>solution acc'. process_solution population frontIndex acc' solution) front acc)"
proof (induction front arbitrary: acc)
  case Nil
  show ?case by (simp add: shrinks_refl)
next
  case (Cons a front)
  show ?case
    using shrinks_trans [OF shrinks_process_solution Cons.IH] by simp
qed

lemma process_front_decreases:
  assumes "snd (process_front population frontIndex h front) \<noteq> []"
  shows "card (waiting population (fst (process_front population frontIndex h front)))
           < card (waiting population h)"
proof -
  let ?r = "process_front population frontIndex h front"
  have "shrinks population (h, []) ?r"
    unfolding process_front_def by (rule shrinks_fold_process_solution)
  with assms have "waiting population (fst ?r) \<subset> waiting population h"
    by (auto simp: shrinks_def)
  moreover have "finite (waiting population h)" by (simp add: waiting_def)
  ultimately show ?thesis by (rule psubset_card_mono [rotated])
qed

text \<open>
  The \<open>while\<close> loop: \<open>fronts[frontIndex]\<close> is the front pushed last.
\<close>

function build_fronts ::
  "'a list \<Rightarrow> ('a \<Rightarrow> solution) \<Rightarrow> 'a list list \<Rightarrow> nat \<Rightarrow> ('a \<Rightarrow> solution) \<times> 'a list list" where
  "build_fronts population h fronts frontIndex =
     (if 0 < length (fronts ! frontIndex) then
        (let r = process_front population frontIndex h (fronts ! frontIndex) in
           if 0 < length (snd r)
           then build_fronts population (fst r) (fronts @ [snd r]) (frontIndex + 1)
           else (fst r, fronts))
      else (h, fronts))"
  by pat_completeness auto
termination
  by (relation "measure (\<lambda>(population, h, fronts, frontIndex). card (waiting population h))")
     (auto intro: process_front_decreases)

declare build_fronts.simps [simp del]

definition fastNonDominatedSort ::
  "(string \<times> objective) list \<Rightarrow> ('a \<Rightarrow> solution) \<Rightarrow> 'a list \<Rightarrow> ('a \<Rightarrow> solution) \<times> 'a list list" where
  "fastNonDominatedSort objs h population =
     (let r = init_counts objs population h [] population
      in build_fronts population (fst r) [snd r] 0)"


subsection \<open>calculateCrowdingDistance\<close>

definition set_cd :: "('a \<Rightarrow> solution) \<Rightarrow> 'a \<Rightarrow> jsnum \<Rightarrow> ('a \<Rightarrow> solution)" where
  "set_cd h a v = upd_eval h a (\<lambda>e. e\<lparr>e_crowdingDistance := v\<rparr>)"

text \<open>The comparator of the sort by one objective.\<close>

definition by_objective ::
  "string \<Rightarrow> objective \<Rightarrow> ('a \<Rightarrow> solution) \<Rightarrow> 'a \<Rightarrow> 'a \<Rightarrow> jsnum" where
  "by_objective objectiveId objective h a b =
     (let valueA = objval (h a) objectiveId;
          valueB = objval (h b) objectiveId
      in if o_maximize objective then js_sub valueB valueA else js_sub valueA valueB)"

text \<open>The body of the loop over the interior positions \<open>1 \<le> i < frontSize - 1\<close>.\<close>

definition add_distance ::
  "string \<Rightarrow> jsnum \<Rightarrow> 'a list \<Rightarrow> nat \<Rightarrow> ('a \<Rightarrow> solution) \<Rightarrow> ('a \<Rightarrow> solution)" where
  "add_distance objectiveId valueRange front i h =
     (let distance =
            js_div
              (js_abs (js_sub (objval (h (front ! (i + 1))) objectiveId)
                              (objval (h (front ! (i - 1))) objectiveId)))
              valueRange
      in upd_eval h (front ! i)
           (\<lambda>e. e\<lparr>e_crowdingDistance := js_add (e_crowdingDistance e) distance\<rparr>))"

text \<open>
  One round of the loop over the objectives, for a front of more than two members: the
  array is sorted in place, so the next round starts from the order this one leaves.
\<close>

definition objective_pass ::
  "(string \<times> objective) \<Rightarrow> ('a \<Rightarrow> solution) \<times> 'a list \<Rightarrow> ('a \<Rightarrow> solution) \<times> 'a list" where
  "objective_pass entry acc =
     (let objectiveId = fst entry;
          objective = snd entry;
          frontSize = length (snd acc);
          front = js_sort (by_objective objectiveId objective (fst acc)) (snd acc);
          h1 = set_cd (fst acc) (front ! 0) PosInf;
          h2 = set_cd h1 (front ! (frontSize - 1)) PosInf;
          maxValue = objval (h2 (front ! 0)) objectiveId;
          minValue = objval (h2 (front ! (frontSize - 1))) objectiveId;
          valueRange = js_sub maxValue minValue
      in if valueRange = Num 0 then (h2, front)
         else (fold (add_distance objectiveId valueRange front) [1..<frontSize - 1] h2, front))"

definition calculateCrowdingDistance ::
  "(string \<times> objective) list \<Rightarrow> ('a \<Rightarrow> solution) \<Rightarrow> 'a list \<Rightarrow> ('a \<Rightarrow> solution) \<times> 'a list" where
  "calculateCrowdingDistance objs h front =
     (let frontSize = length front;
          h0 = fold (\<lambda>solution h'. set_cd h' solution (Num 0)) front h
      in if frontSize \<le> 2
         then (fold (\<lambda>solution h'. set_cd h' solution PosInf) front h0, front)
         else fold objective_pass objs (h0, front))"

subsection \<open>selection\<close>




subsection \<open>crossover\<close>






subsection \<open>Notions used to state the properties of the sort\<close>

text \<open>
  The dominance of the specification: \<open>A\<close> dominates \<open>B\<close> when \<open>A\<close> is no worse on
  every objective, in the direction of the objective, and strictly better on one.
\<close>

definition worse_on :: "objective \<Rightarrow> jsnum \<Rightarrow> jsnum \<Rightarrow> bool" where
  "worse_on objective v1 v2 = (if o_maximize objective then js_lt v1 v2 else js_gt v1 v2)"

definition dominates_spec :: "(string \<times> objective) list \<Rightarrow> solution \<Rightarrow> solution \<Rightarrow> bool" where
  "dominates_spec objs A B \<longleftrightarrow>
     list_all (\<lambda>entry. \<not> worse_on (snd entry) (objval A (fst entry)) (objval B (fst entry))) objs \<and>
     list_ex (\<lambda>entry. worse_on (snd entry) (objval B (fst entry)) (objval A (fst entry))) objs"

text \<open>
  A population is well formed when its members have pairwise distinct ids and every
  member has a value that is a number, not \<open>NaN\<close> and not missing, for every
  registered objective.
\<close>

definition distinct_ids :: "('a \<Rightarrow> solution) \<Rightarrow> 'a list \<Rightarrow> bool" where
  "distinct_ids h population = distinct (map (\<lambda>a. s_id (h a)) population)"

definition comparable :: "(string \<times> objective) list \<Rightarrow> ('a \<Rightarrow> solution) \<Rightarrow> 'a list \<Rightarrow> bool" where
  "comparable objs h population =
     list_all (\<lambda>a. list_all (\<lambda>entry. objval (h a) (fst entry) \<noteq> NaN) objs) population"

text \<open>The members of a population that no member dominates, in the order of the population.\<close>

definition undominated :: "(string \<times> objective) list \<Rightarrow> ('a \<Rightarrow> solution) \<Rightarrow> 'a list \<Rightarrow> 'a list" where
  "undominated objs h population =
     filter (\<lambda>a. \<not> list_ex (\<lambda>b. dominates objs (h b) (h a)) population) population"

text \<open>
  The members that dominate a member, and the members it dominates, in the order of
  the population.
\<close>

definition dominators ::
  "(string \<times> objective) list \<Rightarrow> ('a \<Rightarrow> solution) \<Rightarrow> 'a list \<Rightarrow> 'a \<Rightarrow> 'a list" where
  "dominators objs h population a = filter (\<lambda>b. dominates objs (h b) (h a)) population"

definition dominatees ::
  "(string \<times> objective) list \<Rightarrow> ('a \<Rightarrow> solution) \<Rightarrow> 'a list \<Rightarrow> 'a \<Rightarrow> 'a list" where
  "dominatees objs h population a = filter (\<lambda>b. dominates objs (h a) (h b)) population"

text \<open>
  Two heaps agree on what the sort only reads: the id and the objective values of
  every object.
\<close>

definition same_core :: "('a \<Rightarrow> solution) \<Rightarrow> ('a \<Rightarrow> solution) \<Rightarrow> bool" where
  "same_core h h' \<longleftrightarrow>
     (\<forall>a. s_id (h' a) = s_id (h a) \<and>
          e_objectives (s_evaluation (h' a)) = e_objectives (s_evaluation (h a)))"

text \<open>
  The invariant of the \<open>while\<close> loop of the sort, \<open>h0\<close> being the heap the sort
  started from. The fronts before the last one have been processed. The count of a
  member is the number of its dominators not yet processed, and the members placed in
  a front are those whose dominators have all been processed.
\<close>

definition sort_invariant ::
  "(string \<times> objective) list \<Rightarrow> ('a \<Rightarrow> solution) \<Rightarrow> 'a list \<Rightarrow> ('a \<Rightarrow> solution)
    \<Rightarrow> 'a list list \<Rightarrow> bool" where
  "sort_invariant objs h0 population h fronts \<longleftrightarrow>
     fronts \<noteq> [] \<and> same_core h0 h \<and>
     (\<forall>a \<in> set population.
        dominated_of h a = map (\<lambda>b. s_id (h0 b)) (dominatees objs h0 population a)) \<and>
     distinct (concat fronts) \<and>
     (\<forall>a \<in> set population.
        count_of h a =
          int (card (set (dominators objs h0 population a) - set (concat (butlast fronts))))) \<and>
     set (concat fronts) =
       {a \<in> set population.
          set (dominators objs h0 population a) \<subseteq> set (concat (butlast fronts))}"

subsection \<open>Notions used to state the properties of the selection\<close>


section \<open>Scenario inputs\<close>

text \<open>
  An environment in which every collaborator succeeds, at clock value 1000, and the
  states a few calls lead to from a fresh manager and a fresh brancher.
\<close>

definition env0 :: env where
  "env0 =
     \<lparr>now = 1000, git_ok = (\<lambda>c. True), god_ok = True, fs_ok = True,
      commit_hash = ''abc123'', stats_ok = True, countFiles = 0, tree_balance = 0,
      guidance_realm = Some ''light'', random_hex = ''0a1b2c3d''\<rparr>"

definition env12h :: env where
  "env12h = env0\<lparr>now := 43201000\<rparr>"

definition wm0 :: worktree_manager where
  "wm0 = new_WorktreeManager ''/repo''"

definition wid1 :: string where
  "wid1 = ''evolution_e1_1000''"

definition mut1 :: mutation_arg where
  "mut1 = \<lparr>ma_id = ''m1'', ma_type = ''optimize'', ma_description = None\<rparr>"

definition wm1 :: worktree_manager where
  "wm1 = snd (createEvolutionWorktree env0 wm0 ''e1'' ''main'' ''Brahma'')"

definition wt1 :: worktree where
  "wt1 =
     \<lparr>w_id = wid1, w_evolutionId = ''e1'',
      w_path = ''/repo/.gaia-worktrees/evolution_e1_1000'',
      w_branchName = ''evolution/e1'', w_baseBranch = ''main'', w_god = ''Brahma'',
      w_created = 1000, w_status = WActive, w_commits = [], w_mutations = 0,
      w_fitness = 0, w_mergedAt = None, w_mergedTo = None, w_error = None\<rparr>"

text \<open>One change applied to that worktree at once, or twelve hours after its creation.\<close>

definition wmB :: worktree_manager where
  "wmB = snd (applyMutation env0 wm1 wid1 mut1 ''msg'')"

definition wmC :: worktree_manager where
  "wmC = snd (applyMutation env12h wm1 wid1 mut1 ''msg'')"

definition wtB :: worktree where
  "wtB =
     wt1\<lparr>w_commits := [\<lparr>wc_hash = ''abc123'', wc_message = ''msg'',
                          wc_mutation = ''m1'', wc_timestamp = 1000\<rparr>],
         w_mutations := 1, w_fitness := 35\<rparr>"

definition wtC :: worktree where
  "wtC =
     wt1\<lparr>w_commits := [\<lparr>wc_hash = ''abc123'', wc_message = ''msg'',
                          wc_mutation = ''m1'', wc_timestamp = 43201000\<rparr>],
         w_mutations := 1, w_fitness := 35 / 2\<rparr>"

text \<open>A manager whose bound is 1, one worktree allocated and then merged.\<close>

definition wmA1 :: worktree_manager where
  "wmA1 = snd (createEvolutionWorktree env0 (wm0\<lparr>maxWorktrees := 1\<rparr>) ''e1'' ''main'' ''Brahma'')"

definition wmA2 :: worktree_manager where
  "wmA2 = snd (mergeEvolution env0 wmA1 wid1 ''main'' 0)"

definition mid1 :: string where
  "mid1 = ''optimize_1000_0a1b2c3d''"

definition mb1 :: mutation_brancher where
  "mb1 = snd (createMutationBranch env0 new_MutationBrancher ''optimize'' ''main'' None)"


definition mt1 :: mutation where
  "mt1 =
     \<lparr>m_id = mid1, m_type = ''optimize'',
      m_branchName = ''mutation/optimize/optimize_1000_0a1b2c3d'', m_baseBranch = ''main'',
      m_god = ''freyr'', m_created = 1000, m_status = MActive, m_commits = [],
      m_changes = [], m_fitness = 0, m_realm = Some ''light'', m_realmBalance = 0,
      m_lastModified = None, m_mergedAt = None, m_mergedTo = None, m_abandonedAt = None,
      m_abandonReason = None, m_error = None\<rparr>"

text \<open>
  Evaluators for the scenarios: one resolves to 50 for every objective; one resolves to
  \<open>NaN\<close> for \<open>performance\<close> and is rejected with an \<open>Error\<close> for \<open>security\<close>; one is
  rejected without a reason for \<open>security\<close>, as after \<open>setTimeout(reject, ms)\<close>.
  \<open>defaultOrder\<close> is an order of the entries: that of the registration.
\<close>

definition cand1 :: candidate where
  "cand1 =
     \<lparr>c_id = ''s1'', c_type = ''mutation'', c_parents = [], c_generation = 0,
      c_properties = None, c_created = 1000\<rparr>"

definition steady_evaluator :: "string \<Rightarrow> candidate \<Rightarrow> eval_result" where
  "steady_evaluator objectiveId solution = Resolved (Number (Num 50))"

definition faulty_evaluator :: "string \<Rightarrow> candidate \<Rightarrow> eval_result" where
  "faulty_evaluator objectiveId solution =
     (if objectiveId = ''performance'' then Resolved (Number NaN)
      else if objectiveId = ''security'' then Rejected Thrown
      else Resolved (Number (Num 50)))"

definition silent_evaluator :: "string \<Rightarrow> candidate \<Rightarrow> eval_result" where
  "silent_evaluator objectiveId solution =
     (if objectiveId = ''security'' then Rejected Nullish
      else Resolved (Number (Num 50)))"

definition defaultOrder :: "string list" where
  "defaultOrder = map fst defaultObjectives"

text \<open>
  Evaluated solutions for the scenarios of the sort and of the crowding distance:
  \<open>evaluated i vals\<close> is the solution with id \<open>i\<close> and objective values \<open>vals\<close>,
  fresh from its evaluation.
\<close>

definition evaluated :: "string \<Rightarrow> (string \<times> jsnum) list \<Rightarrow> solution" where
  "evaluated i vals =
     \<lparr>s_id = i,
      s_evaluation =
        \<lparr>e_solutionId = i, e_objectives = map_of vals, e_divineBlessing = None,
         e_dominationCount = 0, e_dominatedSolutions = [], e_rank = 0,
         e_crowdingDistance = Num 0\<rparr>\<rparr>"

text \<open>Only \<open>complexity\<close> is registered (the other objectives removed).\<close>

definition complexity :: objective where
  "complexity =
     \<lparr>o_name = ''Complexity'', o_weight = 1, o_maximize = False,
      o_divine_patron = ''vidar'', o_history = []\<rparr>"

definition complexityOnly :: "(string \<times> objective) list" where
  "complexityOnly = [(''complexity'', complexity)]"

text \<open>A front of three solutions of complexity 10, 20 and 30, at addresses 0, 1, 2.\<close>

definition heapF :: "nat \<Rightarrow> solution" where
  "heapF a =
     (if a = 0 then evaluated ''s0'' [(''complexity'', Num 10)]
      else if a = 1 then evaluated ''s1'' [(''complexity'', Num 20)]
      else evaluated ''s2'' [(''complexity'', Num 30)])"






text \<open>
  Populations for the sort. \<open>heapS\<close>: four solutions with distinct ids, evaluated on
  performance (maximized) and complexity (minimized). \<open>heapD\<close>: three solutions of
  which two share the id \<open>b\<close>, evaluated on performance. \<open>heapN\<close>: three solutions
  with distinct ids, each with \<open>NaN\<close> on one of three maximized objectives.
\<close>

definition performance :: objective where
  "performance =
     \<lparr>o_name = ''Performance'', o_weight = 1, o_maximize = True,
      o_divine_patron = ''thor'', o_history = []\<rparr>"

definition maintainability :: objective where
  "maintainability =
     \<lparr>o_name = ''Maintainability'', o_weight = 1, o_maximize = True,
      o_divine_patron = ''odin'', o_history = []\<rparr>"

definition security :: objective where
  "security =
     \<lparr>o_name = ''Security'', o_weight = 1, o_maximize = True,
      o_divine_patron = ''heimdall'', o_history = []\<rparr>"

definition performanceOnly :: "(string \<times> objective) list" where
  "performanceOnly = [(''performance'', performance)]"

definition twoObjectives :: "(string \<times> objective) list" where
  "twoObjectives = [(''performance'', performance), (''complexity'', complexity)]"

definition threeObjectives :: "(string \<times> objective) list" where
  "threeObjectives =
     [(''performance'', performance), (''maintainability'', maintainability),
      (''security'', security)]"

definition heapS :: "nat \<Rightarrow> solution" where
  "heapS a =
     (if a = 0 then evaluated ''a'' [(''performance'', Num 3), (''complexity'', Num 1)]
      else if a = 1 then evaluated ''b'' [(''performance'', Num 2), (''complexity'', Num 2)]
      else if a = 2 then evaluated ''c'' [(''performance'', Num 1), (''complexity'', Num 3)]
      else evaluated ''d'' [(''performance'', Num 5), (''complexity'', Num 5)])"

definition heapD :: "nat \<Rightarrow> solution" where
  "heapD a =
     (if a = 0 then evaluated ''a'' [(''performance'', Num 3)]
      else if a = 1 then evaluated ''b'' [(''performance'', Num 2)]
      else evaluated ''b'' [(''performance'', Num 1)])"

definition heapN :: "nat \<Rightarrow> solution" where
  "heapN a =
     (if a = 0 then
        evaluated ''a''
          [(''performance'', Num 2), (''maintainability'', Num 1), (''security'', NaN)]
      else if a = 1 then
        evaluated ''b''
          [(''performance'', NaN), (''maintainability'', Num 2), (''security'', Num 1)]
      else
        evaluated ''c''
          [(''performance'', Num 1), (''maintainability'', NaN), (''security'', Num 2)])"


section \<open>Properties of the worktree manager\<close>

lemma run_git_all_ok: "(\<And>c. ok c) \<Longrightarrow> run_git ok cs g = (True, g @ cs)"
  by (induction cs arbitrary: g) auto

lemma length_delete_less:
  "map_of al k = Some v \<Longrightarrow> length (AList.delete k al) < length al"
proof (induction al)
  case Nil
  then show ?case by simp
next
  case (Cons p al)
  show ?case
  proof (cases "fst p = k")
    case True
    have "length (AList.delete k al) \<le> length al" by (rule length_delete_le)
    with True show ?thesis by (cases p) (simp add: less_Suc_eq_le)
  next
    case False
    with Cons show ?thesis by (cases p) auto
  qed
qed

lemma createEvolutionWorktree_capacity_iff:
  "fst (createEvolutionWorktree e s evo base g) = Inl CapacityExceeded
     \<longleftrightarrow> maxWorktrees s \<le> length (worktrees s)"
proof (cases "maxWorktrees s \<le> length (worktrees s)")
  case True
  then show ?thesis by (simp add: createEvolutionWorktree_def)
next
  case False
  show ?thesis
  proof (cases "god_ok e")
    case g: False
    with False show ?thesis by (simp add: createEvolutionWorktree_def Let_def)
  next
    case g: True
    obtain b l where rg: "run_git (git_ok e)
        [CheckoutLocalBranch (''evolution/'' @ evo), Checkout base,
         WorktreeAdd (worktreeDir s @ ''/'' @ ''evolution_'' @ evo @ ''_'' @ show_nat (now e))
           (''evolution/'' @ evo)] (git_issued s) = (b, l)"
      by fastforce
    with False g show ?thesis
      by (cases b) (simp_all add: createEvolutionWorktree_def Let_def)
  qed
qed

lemma createEvolutionWorktree_ok:
  assumes "length (worktrees s) < maxWorktrees s" and "god_ok e" and "\<And>c. git_ok e c"
  shows "\<exists>w. createEvolutionWorktree e s evo base g =
           (Inr w, s\<lparr>git_issued := git_issued s @
                      [CheckoutLocalBranch (w_branchName w), Checkout base,
                       WorktreeAdd (w_path w) (w_branchName w)],
                    worktrees := AList.update (w_id w) w (worktrees s)\<rparr>)
         \<and> w_id w = ''evolution_'' @ evo @ ''_'' @ show_nat (now e)
         \<and> w_status w = WActive \<and> w_fitness w = 0 \<and> w_god w = g
         \<and> w_commits w = [] \<and> w_mutations w = 0 \<and> w_created w = now e"
  using assms by (simp add: createEvolutionWorktree_def Let_def run_git_all_ok)

lemma cleanupWorktree_Inr:
  assumes "fst (cleanupWorktree e s wid) = Inr ()"
  shows "map_of (worktrees s) wid \<noteq> None
       \<and> worktrees (snd (cleanupWorktree e s wid)) = AList.delete wid (worktrees s)
       \<and> maxWorktrees (snd (cleanupWorktree e s wid)) = maxWorktrees s"
proof (cases "map_of (worktrees s) wid")
  case None
  with assms show ?thesis by (simp add: cleanupWorktree_def)
next
  case (Some w)
  with assms show ?thesis
    by (cases "git_ok e (WorktreeRemove (w_path w))") (simp_all add: cleanupWorktree_def Let_def)
qed


lemma applyMutation_Inr:
  assumes "map_of (worktrees s) wid = Some w"
      and "fst (applyMutation e s wid m msg) = Inr w'"
  shows "w' = w\<lparr>w_commits := w_commits w @ [\<lparr>wc_hash = commit_hash e, wc_message = msg,
                          wc_mutation = ma_id m, wc_timestamp = now e\<rparr>],
               w_mutations := w_mutations w + 1,
               w_fitness := calculateWorktreeFitness e
                 (w\<lparr>w_commits := w_commits w @ [\<lparr>wc_hash = commit_hash e, wc_message = msg,
                          wc_mutation = ma_id m, wc_timestamp = now e\<rparr>],
                    w_mutations := w_mutations w + 1\<rparr>)\<rparr>
       \<and> worktrees (snd (applyMutation e s wid m msg)) = AList.update wid w' (worktrees s)"
proof (cases "fs_ok e")
  case False
  with assms show ?thesis by (simp add: applyMutation_def)
next
  case True
  obtain b g where rg: "run_git (git_ok e)
                    [WtAddAll (w_path w), WtCommit (w_path w) msg (ma_id m) (w_god w)]
                    (git_issued s) = (b, g)" by fastforce
  show ?thesis
  proof (cases b)
    case False
    with assms True rg show ?thesis by (simp add: applyMutation_def)
  next
    case b: True
    with assms True rg show ?thesis by (auto simp add: applyMutation_def Let_def)
  qed
qed

lemma applyMutation_ok:
  assumes "map_of (worktrees s) wid = Some w" and "fs_ok e" and "\<And>c. git_ok e c"
  shows "\<exists>w'. fst (applyMutation e s wid m msg) = Inr w'"
  using assms by (simp add: applyMutation_def Let_def run_git_all_ok)

lemma calculateWorktreeFitness_formula:
  "calculateWorktreeFitness e w =
     clamp 0 100 ((10 * real (length (w_commits w)) + 5 * real (w_mutations w) + policyBonus (w_god w))
        * timeDecay (ageInHours e w) + 2 * real (getWorktreeStats_fileCount e w))"
  by (simp add: calculateWorktreeFitness_def Let_def clamp_def timeDecay_def policyBonus_def
        ageInHours_def mult.commute)

lemma wm1_eq:
  "wm1 = \<lparr>worktrees = [(wid1, wt1)], maxWorktrees = 10, worktreeDir = ''/repo/.gaia-worktrees'',
           git_issued = [CheckoutLocalBranch ''evolution/e1'', Checkout ''main'',
             WorktreeAdd ''/repo/.gaia-worktrees/evolution_e1_1000'' ''evolution/e1'']\<rparr>"
  by (simp add: wm1_def wm0_def env0_def createEvolutionWorktree_def new_WorktreeManager_def
        show_nat.simps Let_def wt1_def wid1_def)

lemma wm1_lookup: "map_of (worktrees wm1) wid1 = Some wt1"
  by (simp add: wm1_eq)

lemma policyBonus_Brahma: "policyBonus ''Brahma'' = 20"
  by (simp add: policyBonus_def godBonuses_def)

lemma env0_sel:
  "now env0 = 1000" "fs_ok env0" "git_ok env0 c" "god_ok env0" "stats_ok env0"
  "countFiles env0 = 0" "commit_hash env0 = ''abc123''"
  by (simp_all add: env0_def)

lemma env12h_sel:
  "now env12h = 43201000" "fs_ok env12h" "git_ok env12h c" "god_ok env12h" "stats_ok env12h"
  "countFiles env12h = 0" "commit_hash env12h = ''abc123''"
  by (simp_all add: env12h_def env0_def)

lemma wt1_sel:
  "w_commits wt1 = []" "w_mutations wt1 = 0" "w_god wt1 = ''Brahma''" "w_created wt1 = 1000"
  "w_fitness wt1 = 0" "w_status wt1 = WActive"
  by (simp_all add: wt1_def)

lemma fitness_B:
  "calculateWorktreeFitness env0 (wt1\<lparr>w_commits := [c], w_mutations := Suc 0\<rparr>) = 35"
  by (simp add: calculateWorktreeFitness_formula wt1_sel env0_sel policyBonus_Brahma
        ageInHours_def timeDecay_def clamp_def getWorktreeStats_fileCount_def)

lemma fitness_C:
  "calculateWorktreeFitness env12h (wt1\<lparr>w_commits := [c], w_mutations := Suc 0\<rparr>) = 35 / 2"
  by (simp add: calculateWorktreeFitness_formula wt1_sel env12h_sel policyBonus_Brahma
        ageInHours_def timeDecay_def clamp_def getWorktreeStats_fileCount_def)

lemma wmB_lookup: "getWorktree wmB wid1 = Some wtB"
proof -
  obtain w' where r: "fst (applyMutation env0 wm1 wid1 mut1 ''msg'') = Inr w'"
    using applyMutation_ok [OF wm1_lookup, of env0] env0_sel by blast
  from applyMutation_Inr [OF wm1_lookup r]
  have "w' = wtB" and "worktrees wmB = AList.update wid1 w' (worktrees wm1)"
    by (simp_all add: wmB_def wtB_def wt1_sel env0_sel fitness_B mut1_def)
  then show ?thesis by (simp add: getWorktree_def update_conv')
qed

lemma wmC_lookup: "getWorktree wmC wid1 = Some wtC"
proof -
  obtain w' where r: "fst (applyMutation env12h wm1 wid1 mut1 ''msg'') = Inr w'"
    using applyMutation_ok [OF wm1_lookup, of env12h] env12h_sel by blast
  from applyMutation_Inr [OF wm1_lookup r]
  have "w' = wtC" and "worktrees wmC = AList.update wid1 w' (worktrees wm1)"
    by (simp_all add: wmC_def wtC_def wt1_sel env12h_sel fitness_C mut1_def)
  then show ?thesis by (simp add: getWorktree_def update_conv')
qed

lemma clamp_inside: "0 < y \<Longrightarrow> y < 100 \<Longrightarrow> clamp 0 100 x = y \<Longrightarrow> x = y"
  by (auto simp: clamp_def max_def min_def split: if_splits)


lemma wmA1_eq:
  "wmA1 = \<lparr>worktrees = [(wid1, wt1)], maxWorktrees = 1, worktreeDir = ''/repo/.gaia-worktrees'',
           git_issued = [CheckoutLocalBranch ''evolution/e1'', Checkout ''main'',
             WorktreeAdd ''/repo/.gaia-worktrees/evolution_e1_1000'' ''evolution/e1'']\<rparr>"
  by (simp add: wmA1_def wm0_def env0_def createEvolutionWorktree_def new_WorktreeManager_def
        show_nat.simps Let_def wt1_def wid1_def)

lemma wmA2_sel:
  "worktrees wmA2 = [(wid1, wt1\<lparr>w_status := WMerged, w_mergedAt := Some 1000,
                                 w_mergedTo := Some ''main''\<rparr>)]"
  "maxWorktrees wmA2 = 1"
  by (simp_all add: wmA2_def wmA1_eq mergeEvolution_def wt1_sel env0_sel)

lemma mb1_eq:
  "mb1 = \<lparr>mutationBranches = [(mid1, mt1)], branchHistory = [], activeMutations = [mid1],
           maxConcurrentMutations = 8,
           mb_git_issued = [Checkout ''main'',
             CheckoutLocalBranch ''mutation/optimize/optimize_1000_0a1b2c3d''],
           balance_calls = []\<rparr>"
  by (simp add: mb1_def env0_def createMutationBranch_def new_MutationBrancher_def
        generateMutationId_def show_nat.simps Let_def mt1_def mid1_def set_add_def
        selectGodForMutation_def mutationGodMappings_def)

lemma mb1_lookup: "map_of (mutationBranches mb1) mid1 = Some mt1"
  by (simp add: mb1_eq)

text \<open>
  C4. For every tracked worktree, and every tracked mutation, whose stored fitness is
  strictly below the threshold argument, the merge call returns \<open>false\<close> and leaves the
  whole manager state as it was: no git call is logged, and no record, status, commit
  list, fitness or active set changes.
\<close>

theorem merge_below_threshold_is_noop:
  "(map_of (worktrees s) wid = Some w \<and> w_fitness w < thr
      \<longrightarrow> mergeEvolution e s wid target thr = (Inr False, s)) \<and>
   (map_of (mutationBranches b) mid = Some m \<and> m_fitness m < thr'
      \<longrightarrow> mergeMutation e' b mid target' thr' = (Inr False, b))"
proof (intro conjI impI)
  assume "map_of (worktrees s) wid = Some w \<and> w_fitness w < thr"
  then show "mergeEvolution e s wid target thr = (Inr False, s)"
    by (simp add: mergeEvolution_def)
next
  assume "map_of (mutationBranches b) mid = Some m \<and> m_fitness m < thr'"
  then show "mergeMutation e' b mid target' thr' = (Inr False, b)"
    by (simp add: mergeMutation_def)
qed

theorem merge_below_threshold_is_noop_witness:
  "map_of (worktrees wm1) wid1 = Some wt1 \<and> w_fitness wt1 < 70 \<and>
   mergeEvolution env0 wm1 wid1 ''main'' 70 = (Inr False, wm1) \<and>
   map_of (mutationBranches mb1) mid1 = Some mt1 \<and> m_fitness mt1 < 60 \<and>
   mergeMutation env0 mb1 mid1 ''main'' 60 = (Inr False, mb1)"
proof -
  have a: "map_of (worktrees wm1) wid1 = Some wt1 \<and> w_fitness wt1 < 70"
    by (simp add: wm1_lookup wt1_sel)
  have b: "map_of (mutationBranches mb1) mid1 = Some mt1 \<and> m_fitness mt1 < 60"
    by (simp add: mb1_lookup mt1_def)
  from a b
    merge_below_threshold_is_noop
      [of wm1 wid1 wt1 70 env0 "''main''" mb1 mid1 mt1 60 env0 "''main''"]
  show ?thesis by blast
qed

text \<open>
  C5, as amended. Allocation fails with \<open>CapacityExceeded\<close> precisely when the number
  of tracked worktrees (the size of the map, whatever the status of its entries) has
  reached the bound. After one successful cleanup of a tracked worktree of a manager
  that was within its bound, the next allocation does not fail for capacity, and it
  succeeds with an active worktree when its collaborators do.
\<close>

theorem allocation_fails_iff_tracked_count_at_bound:
  "(fst (createEvolutionWorktree e s evo base g) = Inl CapacityExceeded
      \<longleftrightarrow> maxWorktrees s \<le> length (worktrees s)) \<and>
   (length (worktrees s) \<le> maxWorktrees s \<and> fst (cleanupWorktree e1 s wid) = Inr ()
      \<longrightarrow> fst (createEvolutionWorktree e2 (snd (cleanupWorktree e1 s wid)) evo base g)
            \<noteq> Inl CapacityExceeded \<and>
          (god_ok e2 \<and> (\<forall>c. git_ok e2 c)
            \<longrightarrow> (\<exists>w. fst (createEvolutionWorktree e2 (snd (cleanupWorktree e1 s wid)) evo base g)
                       = Inr w \<and> w_status w = WActive)))"
proof (intro conjI impI)
  show "fst (createEvolutionWorktree e s evo base g) = Inl CapacityExceeded
          \<longleftrightarrow> maxWorktrees s \<le> length (worktrees s)"
    by (rule createEvolutionWorktree_capacity_iff)
next
  assume h: "length (worktrees s) \<le> maxWorktrees s \<and> fst (cleanupWorktree e1 s wid) = Inr ()"
  let ?s' = "snd (cleanupWorktree e1 s wid)"
  from h cleanupWorktree_Inr [of e1 s wid]
  obtain w where w: "map_of (worktrees s) wid = Some w"
    and s': "worktrees ?s' = AList.delete wid (worktrees s)" "maxWorktrees ?s' = maxWorktrees s"
    by auto
  from length_delete_less [OF w] h s'
  have lt: "length (worktrees ?s') < maxWorktrees ?s'" by simp
  then show "fst (createEvolutionWorktree e2 ?s' evo base g) \<noteq> Inl CapacityExceeded"
    by (simp add: createEvolutionWorktree_capacity_iff)
  assume ok: "god_ok e2 \<and> (\<forall>c. git_ok e2 c)"
  with createEvolutionWorktree_ok [OF lt, of e2 evo base g]
  show "\<exists>w. fst (createEvolutionWorktree e2 ?s' evo base g) = Inr w \<and> w_status w = WActive"
    by auto
qed

lemma cleanup_wmA1: "fst (cleanupWorktree env0 wmA1 wid1) = Inr ()"
  by (simp add: cleanupWorktree_def wmA1_eq env0_sel Let_def)

theorem allocation_fails_iff_tracked_count_at_bound_witness:
  "length (worktrees wmA1) \<le> maxWorktrees wmA1 \<and>
   fst (cleanupWorktree env0 wmA1 wid1) = Inr () \<and>
   god_ok env0 \<and> (\<forall>c. git_ok env0 c) \<and>
   fst (createEvolutionWorktree env0 wmA1 ''e2'' ''main'' ''Brahma'') = Inl CapacityExceeded \<and>
   fst (createEvolutionWorktree env0 (snd (cleanupWorktree env0 wmA1 wid1)) ''e2'' ''main'' ''Brahma'')
     \<noteq> Inl CapacityExceeded \<and>
   (\<exists>w. fst (createEvolutionWorktree env0 (snd (cleanupWorktree env0 wmA1 wid1)) ''e2'' ''main'' ''Brahma'')
           = Inr w \<and> w_status w = WActive)"
proof -
  have a: "length (worktrees wmA1) \<le> maxWorktrees wmA1" by (simp add: wmA1_eq)
  have b: "god_ok env0 \<and> (\<forall>c. git_ok env0 c)" by (simp add: env0_sel)
  have c: "maxWorktrees wmA1 \<le> length (worktrees wmA1)" by (simp add: wmA1_eq)
  from a b c cleanup_wmA1
    allocation_fails_iff_tracked_count_at_bound
      [of env0 wmA1 "''e2''" "''main''" "''Brahma''" env0 wid1 env0]
  show ?thesis by blast
qed

text \<open>
  C5 as stated fails: with bound 1, one worktree allocated and then merged, no tracked
  worktree is active (0 is below the bound), and allocation fails for capacity.
\<close>

theorem allocation_counts_inactive_worktrees_counterexample:
  "getWorktreesStatus_active wmA2 = 0 \<and> maxWorktrees wmA2 = 1 \<and>
   fst (createEvolutionWorktree env0 wmA2 ''e2'' ''main'' ''Brahma'') = Inl CapacityExceeded"
  by (simp add: createEvolutionWorktree_capacity_iff wmA2_sel getWorktreesStatus_active_def)


text \<open>
  C6, as amended. A cleanup of an id that is not tracked fails with \<open>NotFound\<close> and
  changes nothing; a successful cleanup removes the id from the map, so a second
  cleanup of the same id is such a failing call.
\<close>

theorem second_cleanup_fails_NotFound:
  "(map_of (worktrees s) wid = None \<longrightarrow> cleanupWorktree e s wid = (Inl NotFound, s)) \<and>
   (fst (cleanupWorktree e s wid) = Inr ()
      \<longrightarrow> getWorktree (snd (cleanupWorktree e s wid)) wid = None \<and>
          cleanupWorktree e' (snd (cleanupWorktree e s wid)) wid
            = (Inl NotFound, snd (cleanupWorktree e s wid)))"
proof (intro conjI impI)
  assume "map_of (worktrees s) wid = None"
  then show "cleanupWorktree e s wid = (Inl NotFound, s)"
    by (simp add: cleanupWorktree_def)
next
  assume ok: "fst (cleanupWorktree e s wid) = Inr ()"
  let ?s' = "snd (cleanupWorktree e s wid)"
  from cleanupWorktree_Inr [OF ok]
  have "worktrees ?s' = AList.delete wid (worktrees s)" by simp
  then have gone: "map_of (worktrees ?s') wid = None"
    by (simp add: delete_conv')
  then show "getWorktree ?s' wid = None"
    by (simp add: getWorktree_def)
  from gone show "cleanupWorktree e' ?s' wid = (Inl NotFound, ?s')"
    by (simp add: cleanupWorktree_def)
qed

lemma cleanup_wm1: "fst (cleanupWorktree env0 wm1 wid1) = Inr ()"
  by (simp add: cleanupWorktree_def wm1_eq env0_sel Let_def)

theorem second_cleanup_fails_NotFound_witness:
  "map_of (worktrees wm0) wid1 = None \<and> cleanupWorktree env0 wm0 wid1 = (Inl NotFound, wm0) \<and>
   fst (cleanupWorktree env0 wm1 wid1) = Inr () \<and>
   getWorktree (snd (cleanupWorktree env0 wm1 wid1)) wid1 = None \<and>
   cleanupWorktree env0 (snd (cleanupWorktree env0 wm1 wid1)) wid1
     = (Inl NotFound, snd (cleanupWorktree env0 wm1 wid1))"
proof -
  have a: "map_of (worktrees wm0) wid1 = None"
    by (simp add: wm0_def new_WorktreeManager_def)
  from a cleanup_wm1
    second_cleanup_fails_NotFound [of wm0 wid1 env0]
    second_cleanup_fails_NotFound [of wm1 wid1 env0 env0]
  show ?thesis by blast
qed

text \<open>
  C6 as stated fails: the second of two cleanups of the same worktree does fail.
\<close>

theorem cleanup_not_idempotent_counterexample:
  "fst (cleanupWorktree env0 wm1 wid1) = Inr () \<and>
   fst (cleanupWorktree env0 (snd (cleanupWorktree env0 wm1 wid1)) wid1) = Inl NotFound"
proof -
  let ?s' = "snd (cleanupWorktree env0 wm1 wid1)"
  from cleanupWorktree_Inr [OF cleanup_wm1]
  have "worktrees ?s' = AList.delete wid1 (worktrees wm1)" by simp
  then have "map_of (worktrees ?s') wid1 = None" by (simp add: delete_conv')
  then have "fst (cleanupWorktree env0 ?s' wid1) = Inl NotFound"
    by (simp add: cleanupWorktree_def)
  with cleanup_wm1 show ?thesis by simp
qed

text \<open>
  C8, as amended. After every successful \<open>applyMutation\<close> the stored fitness of the
  returned worktree is \<open>clamp(0, 100, (10 * commits + 5 * mutations + policyBonus) *
  timeDecay(age) + 2 * fileCount)\<close>, the counts including the change just applied: the
  policy bonus decays with the activity terms, and twice the number of files of the
  worktree is added after the decay.
\<close>

theorem applyMutation_fitness_formula:
  "applyMutation e s wid m msg = (Inr w', s') \<Longrightarrow>
     w_fitness w' =
       clamp 0 100
         ((10 * real (length (w_commits w')) + 5 * real (w_mutations w') + policyBonus (w_god w'))
            * timeDecay (ageInHours e w')
          + 2 * real (getWorktreeStats_fileCount e w')) \<and>
     getWorktree s' wid = Some w'"
proof -
  assume r: "applyMutation e s wid m msg = (Inr w', s')"
  show ?thesis
  proof (cases "map_of (worktrees s) wid")
    case None
    with r show ?thesis by (simp add: applyMutation_def)
  next
    case (Some w)
    let ?w2 = "w\<lparr>w_commits := w_commits w @ [\<lparr>wc_hash = commit_hash e, wc_message = msg,
                          wc_mutation = ma_id m, wc_timestamp = now e\<rparr>],
                  w_mutations := w_mutations w + 1\<rparr>"
    from r have f: "fst (applyMutation e s wid m msg) = Inr w'"
      and s': "snd (applyMutation e s wid m msg) = s'" by simp_all
    from applyMutation_Inr [OF Some f] s'
    have w': "w' = ?w2\<lparr>w_fitness := calculateWorktreeFitness e ?w2\<rparr>"
      and upd: "worktrees s' = AList.update wid w' (worktrees s)" by simp_all
    have "w_fitness w' = calculateWorktreeFitness e ?w2" by (subst w') simp
    also have "\<dots> = clamp 0 100
         ((10 * real (length (w_commits ?w2)) + 5 * real (w_mutations ?w2) + policyBonus (w_god ?w2))
            * timeDecay (ageInHours e ?w2)
          + 2 * real (getWorktreeStats_fileCount e ?w2))"
      by (rule calculateWorktreeFitness_formula)
    also have "\<dots> = clamp 0 100
         ((10 * real (length (w_commits w')) + 5 * real (w_mutations w') + policyBonus (w_god w'))
            * timeDecay (ageInHours e w')
          + 2 * real (getWorktreeStats_fileCount e w'))"
      by (subst (1 2 3 4 5) w') (simp add: ageInHours_def getWorktreeStats_fileCount_def)
    finally have 1: "w_fitness w' = clamp 0 100
         ((10 * real (length (w_commits w')) + 5 * real (w_mutations w') + policyBonus (w_god w'))
            * timeDecay (ageInHours e w')
          + 2 * real (getWorktreeStats_fileCount e w'))" .
    from upd have 2: "getWorktree s' wid = Some w'"
      by (simp add: getWorktree_def update_conv')
    from 1 2 show ?thesis by simp
  qed
qed

lemma applyMutation_wm1_B: "applyMutation env0 wm1 wid1 mut1 ''msg'' = (Inr wtB, wmB)"
proof -
  obtain w' where r: "fst (applyMutation env0 wm1 wid1 mut1 ''msg'') = Inr w'"
    using applyMutation_ok [OF wm1_lookup, of env0] env0_sel by blast
  from applyMutation_Inr [OF wm1_lookup r]
  have "w' = wtB"
    by (simp add: wtB_def wt1_sel env0_sel fitness_B mut1_def)
  with r show ?thesis by (simp add: wmB_def prod_eq_iff)
qed

theorem applyMutation_fitness_formula_witness:
  "applyMutation env0 wm1 wid1 mut1 ''msg'' = (Inr wtB, wmB) \<and>
   w_fitness wtB =
       clamp 0 100
         ((10 * real (length (w_commits wtB)) + 5 * real (w_mutations wtB) + policyBonus (w_god wtB))
            * timeDecay (ageInHours env0 wtB)
          + 2 * real (getWorktreeStats_fileCount env0 wtB)) \<and>
   getWorktree wmB wid1 = Some wtB"
  using applyMutation_wm1_B applyMutation_fitness_formula [of env0 wm1 wid1 mut1 "''msg''" wtB wmB]
  by simp


lemma wtB_sel:
  "length (w_commits wtB) = Suc 0" "w_mutations wtB = Suc 0" "w_god wtB = ''Brahma''"
  "w_created wtB = 1000" "w_fitness wtB = 35"
  by (simp_all add: wtB_def wt1_def)

lemma wtC_sel:
  "length (w_commits wtC) = Suc 0" "w_mutations wtC = Suc 0" "w_god wtC = ''Brahma''"
  "w_created wtC = 1000" "w_fitness wtC = 35 / 2"
  by (simp_all add: wtC_def wt1_def)

lemma timeDecay_0: "timeDecay (ageInHours env0 wtB) = 1"
  by (simp add: ageInHours_def timeDecay_def wtB_sel env0_sel)

lemma timeDecay_12: "timeDecay (ageInHours env12h wtC) = 1 / 2"
  by (simp add: ageInHours_def timeDecay_def wtC_sel env12h_sel)

lemma claimed_B: "claimed_fitness base env0 wtB = clamp 0 100 (base (Suc 0) (Suc 0) + 20)"
  unfolding claimed_fitness_def wtB_sel timeDecay_0 policyBonus_Brahma by simp

lemma claimed_C: "claimed_fitness base env12h wtC = clamp 0 100 (base (Suc 0) (Suc 0) / 2 + 20)"
  unfolding claimed_fitness_def wtC_sel timeDecay_12 policyBonus_Brahma by simp


text \<open>
  C8 as stated fails, whatever function of the two counts \<open>base\<close> is. The same change
  applied to the same fresh worktree gives fitness 35 at age 0 and 35/2 at age twelve
  hours; the claimed formula would need \<open>base 1 1 + 20 = 35\<close> for the first and
  \<open>base 1 1 / 2 + 20 = 35 / 2\<close> for the second.
\<close>

theorem claimed_fitness_counterexample:
  "getWorktree wmB wid1 = Some wtB \<and> w_fitness wtB = 35 \<and>
   getWorktree wmC wid1 = Some wtC \<and> w_fitness wtC = 35 / 2 \<and>
   \<not> (\<exists>base. claimed_fitness base env0 wtB = w_fitness wtB \<and>
               claimed_fitness base env12h wtC = w_fitness wtC)"
proof -
  have no: "\<not> (\<exists>base. claimed_fitness base env0 wtB = w_fitness wtB \<and>
               claimed_fitness base env12h wtC = w_fitness wtC)"
  proof
    assume "\<exists>base. claimed_fitness base env0 wtB = w_fitness wtB \<and>
               claimed_fitness base env12h wtC = w_fitness wtC"
    then obtain base where
      b0: "clamp 0 100 (base (Suc 0) (Suc 0) + 20) = 35" and
      b12: "clamp 0 100 (base (Suc 0) (Suc 0) / 2 + 20) = 35 / 2"
      unfolding claimed_B claimed_C wtB_sel wtC_sel by blast
    from b0 have "base (Suc 0) (Suc 0) + 20 = 35"
      by (rule clamp_inside [rotated 2]) simp_all
    then have base: "base (Suc 0) (Suc 0) = 15" by linarith
    from b12 show False
      unfolding base clamp_def by simp
  qed
  from wmB_lookup wtB_sel(5) wmC_lookup wtC_sel(5) no show ?thesis by blast
qed

section \<open>Properties of the mutation brancher\<close>








section \<open>Properties of the optimizer: evaluation\<close>

lemma eval_objectives_lookup:
  "fst (eval_objectives f c objs) k =
     (if k \<in> fst ` set objs
      then (case f k c of
              Resolved v \<Rightarrow> Some v
            | Rejected Thrown \<Rightarrow> Some (Number (Num 0))
            | Rejected Nullish \<Rightarrow> None
            | Pending \<Rightarrow> None
            | Throws \<Rightarrow> None)
      else None)"
proof (induction objs)
  case Nil
  show ?case by simp
next
  case (Cons entry objs)
  obtain i ob where entry: "entry = (i, ob)" by (cases entry)
  show ?case
  proof (cases "f i c")
    case (Resolved v)
    with Cons entry show ?thesis by (simp add: Let_def)
  next
    case (Rejected r)
    with Cons entry show ?thesis by (cases r) (auto simp: Let_def)
  next
    case Pending
    with Cons entry show ?thesis by (auto simp: Let_def)
  next
    case Throws
    with Cons entry show ?thesis by (auto simp: Let_def)
  qed
qed

lemma takeWhile_shorter:
  "length (takeWhile P xs) < length xs \<longleftrightarrow> (\<exists>x \<in> set xs. \<not> P x)"
  by (induction xs) auto

lemma all_called:
  "(length (takeWhile (\<lambda>entry. f (fst entry) c \<noteq> Throws) objs) < length objs)
     \<longleftrightarrow> (\<exists>k \<in> fst ` set objs. f k c = Throws)"
  unfolding takeWhile_shorter by force

lemma stored_not_number:
  "fst (eval_objectives f c objs) k = Some NotNumber
     \<longleftrightarrow> k \<in> fst ` set objs \<and> f k c = Resolved NotNumber"
proof (cases "f k c")
  case (Resolved v)
  then show ?thesis by (simp add: eval_objectives_lookup)
next
  case (Rejected r)
  then show ?thesis by (cases r) (simp_all add: eval_objectives_lookup)
next
  case Pending
  then show ?thesis by (simp add: eval_objectives_lookup)
next
  case Throws
  then show ?thesis by (simp add: eval_objectives_lookup)
qed

text \<open>
  How \<open>evaluateSolution\<close> ends, by what the evaluators of the registered objectives do.
\<close>

lemma evaluateSolution_cases:
  "fst (evaluateSolution f order ok objs c) =
     (if \<exists>k \<in> fst ` set objs. f k c = Throws then Inl CallThrew
      else if \<exists>k \<in> fst ` set objs. f k c = Rejected Nullish then Inl HandlerThrew
      else if \<exists>k \<in> fst ` set objs. f k c = Pending then Inl NeverSettles
      else if \<exists>k \<in> fst ` set objs. f k c = Resolved NotNumber then Inl LogThrew
      else Inr \<lparr>e_solutionId = c_id c,
                e_objectives = numbers (fst (eval_objectives f c objs)),
                e_divineBlessing =
                  getDivineBlessing ok objs
                    (entries_of order (numbers (fst (eval_objectives f c objs)))),
                e_dominationCount = 0, e_dominatedSolutions = [], e_rank = 0,
                e_crowdingDistance = Num 0\<rparr>)"
proof (cases "\<exists>k \<in> fst ` set objs. f k c = Throws")
  case True
  with all_called [of f c objs] show ?thesis
    by (simp add: evaluateSolution_def Let_def)
next
  case False
  with all_called [of f c objs]
  have len: "\<not> length (takeWhile (\<lambda>entry. f (fst entry) c \<noteq> Throws) objs) < length objs"
    by simp
  from False have tw: "takeWhile (\<lambda>entry. f (fst entry) c \<noteq> Throws) objs = objs"
    by (simp add: takeWhile_eq_all_conv)
  have nul: "list_ex (\<lambda>entry. f (fst entry) c = Rejected Nullish) objs
      \<longleftrightarrow> (\<exists>k \<in> fst ` set objs. f k c = Rejected Nullish)"
    unfolding list_ex_iff by force
  have pend: "list_ex (\<lambda>entry. f (fst entry) c = Pending) objs
      \<longleftrightarrow> (\<exists>k \<in> fst ` set objs. f k c = Pending)"
    unfolding list_ex_iff by force
  have nn: "list_ex (\<lambda>entry. fst (eval_objectives f c objs) (fst entry) = Some NotNumber) objs
      \<longleftrightarrow> (\<exists>k \<in> fst ` set objs. f k c = Resolved NotNumber)"
    unfolding list_ex_iff stored_not_number by force
  show ?thesis
    using False
    by (simp add: evaluateSolution_def Let_def tw nul pend nn)
qed

text \<open>
  C10, as amended. An evaluation pass completes exactly when the evaluator of every
  registered objective returns a promise that either resolves to a number or is
  rejected with a reason other than \<open>undefined\<close> and \<open>null\<close>. When it completes, its objective-value map has a value
  for exactly the registered objectives: 0 for an objective whose evaluator is
  rejected, and for any other objective the number its evaluator resolved to, whatever
  that number is.
\<close>

theorem evaluateSolution_objective_values:
  "((\<exists>e. fst (evaluateSolution f order ok objs c) = Inr e) \<longleftrightarrow>
      (\<forall>k \<in> fst ` set objs.
          (\<exists>v. f k c = Resolved (Number v)) \<or> f k c = Rejected Thrown)) \<and>
   (\<forall>e k. fst (evaluateSolution f order ok objs c) = Inr e \<longrightarrow>
      e_objectives e k =
        (if k \<in> fst ` set objs
         then Some (case f k c of Resolved (Number v) \<Rightarrow> v | _ \<Rightarrow> Num 0)
         else None))"
proof (intro conjI allI impI)
  have good: "(\<exists>v. r = Resolved (Number v)) \<or> r = Rejected Thrown \<longleftrightarrow>
      r \<noteq> Throws \<and> r \<noteq> Rejected Nullish \<and> r \<noteq> Pending \<and> r \<noteq> Resolved NotNumber" for r
  proof (cases r)
    case (Resolved v)
    then show ?thesis by (cases v) simp_all
  next
    case (Rejected x)
    then show ?thesis by (cases x) simp_all
  next
    case Pending
    then show ?thesis by simp
  next
    case Throws
    then show ?thesis by simp
  qed
  show "(\<exists>e. fst (evaluateSolution f order ok objs c) = Inr e) \<longleftrightarrow>
      (\<forall>k \<in> fst ` set objs.
          (\<exists>v. f k c = Resolved (Number v)) \<or> f k c = Rejected Thrown)"
  proof (cases "\<exists>k \<in> fst ` set objs. f k c = Throws \<or> f k c = Rejected Nullish
                  \<or> f k c = Pending \<or> f k c = Resolved NotNumber")
    case True
    then have "\<not> (\<exists>e. fst (evaluateSolution f order ok objs c) = Inr e)"
      unfolding evaluateSolution_cases by auto
    moreover from True have "\<not> (\<forall>k \<in> fst ` set objs.
          (\<exists>v. f k c = Resolved (Number v)) \<or> f k c = Rejected Thrown)"
      using good by blast
    ultimately show ?thesis by blast
  next
    case False
    then have "\<exists>e. fst (evaluateSolution f order ok objs c) = Inr e"
      unfolding evaluateSolution_cases by auto
    moreover from False have "\<forall>k \<in> fst ` set objs.
          (\<exists>v. f k c = Resolved (Number v)) \<or> f k c = Rejected Thrown"
      using good by blast
    ultimately show ?thesis by blast
  qed
next
  fix e k
  assume r: "fst (evaluateSolution f order ok objs c) = Inr e"
  then have no: "\<not> (\<exists>k \<in> fst ` set objs. f k c = Throws)"
    "\<not> (\<exists>k \<in> fst ` set objs. f k c = Rejected Nullish)"
    "\<not> (\<exists>k \<in> fst ` set objs. f k c = Pending)"
    "\<not> (\<exists>k \<in> fst ` set objs. f k c = Resolved NotNumber)"
    unfolding evaluateSolution_cases by (auto split: if_splits)
  from r have "e_objectives e = numbers (fst (eval_objectives f c objs))"
    unfolding evaluateSolution_cases using no by auto
  then have v: "e_objectives e k = numbers (fst (eval_objectives f c objs)) k" by simp
  show "e_objectives e k =
        (if k \<in> fst ` set objs
         then Some (case f k c of Resolved (Number v) \<Rightarrow> v | _ \<Rightarrow> Num 0)
         else None)"
  proof (cases "k \<in> fst ` set objs")
    case False
    then show ?thesis unfolding v by (simp add: numbers_def eval_objectives_lookup)
  next
    case True
    with no have "f k c \<noteq> Throws" "f k c \<noteq> Rejected Nullish" "f k c \<noteq> Pending"
      "f k c \<noteq> Resolved NotNumber"
      by blast+
    with True show ?thesis
      unfolding v
      by (auto simp: numbers_def eval_objectives_lookup
               split: eval_result.splits reason.splits jsval.splits)
  qed
qed

lemma defaultObjectives_keys:
  "fst ` set defaultObjectives =
      {''performance'', ''maintainability'', ''complexity'', ''security'', ''innovation'',
       ''divine_harmony''}"
  by (simp add: defaultObjectives_def)

theorem evaluateSolution_objective_values_witness:
  "\<exists>e. fst (evaluateSolution faulty_evaluator defaultOrder True defaultObjectives cand1) = Inr e \<and>
       e_objectives e ''security'' = Some (Num 0) \<and>
       e_objectives e ''complexity'' = Some (Num 50) \<and>
       e_objectives e ''performance'' = Some NaN \<and>
       e_objectives e ''speed'' = None"
proof -
  note t = evaluateSolution_objective_values
    [where f = faulty_evaluator and order = defaultOrder and ok = True
       and objs = defaultObjectives and c = cand1]
  have "\<forall>k \<in> fst ` set defaultObjectives.
          (\<exists>v. faulty_evaluator k cand1 = Resolved (Number v))
          \<or> faulty_evaluator k cand1 = Rejected Thrown"
    by (simp add: defaultObjectives_keys faulty_evaluator_def)
  with t obtain e where
    e: "fst (evaluateSolution faulty_evaluator defaultOrder True defaultObjectives cand1) = Inr e"
    by blast
  with t have "e_objectives e k =
        (if k \<in> fst ` set defaultObjectives
         then Some (case faulty_evaluator k cand1 of Resolved (Number v) \<Rightarrow> v | _ \<Rightarrow> Num 0)
         else None)" for k
    by blast
  then have "e_objectives e ''security'' = Some (Num 0)"
    "e_objectives e ''complexity'' = Some (Num 50)"
    "e_objectives e ''performance'' = Some NaN"
    "e_objectives e ''speed'' = None"
    by (simp_all add: defaultObjectives_keys faulty_evaluator_def)
  with e show ?thesis by blast
qed

text \<open>
  C10 as stated fails in two ways. A value that is not finite is kept: an evaluator
  that resolves to \<open>NaN\<close> contributes \<open>NaN\<close>, not 0. And a failure of an evaluator can
  be fatal: when the promise of one evaluator is rejected without a reason, the
  \<open>catch\<close> handler throws and the evaluation of the solution fails, although every
  other evaluator resolves to 50.
\<close>

theorem evaluateSolution_keeps_NaN_or_fails_counterexample:
  "map_option (\<lambda>e. e_objectives e ''performance'')
     (case fst (evaluateSolution faulty_evaluator defaultOrder True defaultObjectives cand1)
      of Inr e \<Rightarrow> Some e | Inl x \<Rightarrow> None) = Some (Some NaN) \<and>
   fst (evaluateSolution silent_evaluator defaultOrder True defaultObjectives cand1)
     = Inl HandlerThrew"
proof -
  have "fst (evaluateSolution silent_evaluator defaultOrder True defaultObjectives cand1)
     = Inl HandlerThrew"
    unfolding evaluateSolution_cases
    by (simp add: defaultObjectives_keys silent_evaluator_def)
  moreover have "map_option (\<lambda>e. e_objectives e ''performance'')
     (case fst (evaluateSolution faulty_evaluator defaultOrder True defaultObjectives cand1)
      of Inr e \<Rightarrow> Some e | Inl x \<Rightarrow> None) = Some (Some NaN)"
    unfolding evaluateSolution_cases
    by (simp add: defaultObjectives_keys faulty_evaluator_def numbers_def eval_objectives_lookup)
  ultimately show ?thesis by simp
qed

section \<open>Properties of the optimizer: crowding distance\<close>

lemma objval_heapF:
  "objval (heapF 0) ''complexity'' = Num 10"
  "objval (heapF (Suc 0)) ''complexity'' = Num 20"
  "objval (heapF 2) ''complexity'' = Num 30"
  by (simp_all add: heapF_def evaluated_def objval_def)

lemma objval_upd_eval_cd:
  "objval (upd_eval h a (\<lambda>e. e\<lparr>e_crowdingDistance := f e\<rparr>) b) k = objval (h b) k"
  by (simp add: upd_eval_def objval_def)

lemma objval_set_cd: "objval (set_cd h a v b) k = objval (h b) k"
  by (simp add: set_cd_def objval_upd_eval_cd)

lemma cd_of_set_cd: "cd_of (set_cd h a v) b = (if b = a then v else cd_of h b)"
  by (simp add: set_cd_def upd_eval_def cd_of_def)

lemma cd_of_upd_eval_cd:
  "cd_of (upd_eval h a (\<lambda>e. e\<lparr>e_crowdingDistance := f e\<rparr>)) b =
     (if b = a then f (s_evaluation (h a)) else cd_of h b)"
  by (simp add: upd_eval_def cd_of_def)

lemma sorted3:
  fixes h :: "nat \<Rightarrow> solution"
  assumes "\<And>a k. objval (h a) k = objval (heapF a) k"
  shows "js_sort (by_objective ''complexity'' complexity h) [0, Suc 0, 2] = [0, Suc 0, 2]"
  by (simp add: js_sort_def by_objective_def complexity_def assms objval_heapF js_sub_def
        js_positive_def)

text \<open>
  C3 fails on the code for an objective that is minimized. The front is then sorted in
  ascending order, so the value the code calls \<open>maxValue\<close> is the least one and the
  range it divides by is negative: with \<open>complexity\<close> alone registered and a front of
  complexities 10, 20 and 30, the interior member gets \<open>|30 - 10| / (10 - 30) = - 1\<close>,
  where the normalised distance between its neighbours is 1.
\<close>

theorem crowding_distance_negative_for_minimized_objective:
  "map (cd_of (fst (calculateCrowdingDistance complexityOnly heapF [0, 1, 2]))) [0, 1, 2]
     = [PosInf, Num (- 1), PosInf]"
proof -
  let ?h0 = "set_cd (set_cd (set_cd heapF 0 (Num 0)) (Suc 0) (Num 0)) 2 (Num 0)"
  let ?h2 = "set_cd (set_cd ?h0 0 PosInf) 2 PosInf"
  have s: "js_sort (by_objective ''complexity'' complexity ?h0) [0, Suc 0, 2] = [0, Suc 0, 2]"
    by (rule sorted3) (simp add: objval_set_cd)
  have r: "js_sub (objval (?h2 0) ''complexity'') (objval (?h2 2) ''complexity'') = Num (- 20)"
    by (simp add: objval_set_cd objval_heapF js_sub_def)
  have "calculateCrowdingDistance complexityOnly heapF [0, 1, 2] =
      objective_pass (''complexity'', complexity) (?h0, [0, Suc 0, 2])"
    by (simp add: calculateCrowdingDistance_def complexityOnly_def)
  also have "\<dots> = (add_distance ''complexity'' (Num (- 20)) [0, Suc 0, 2] (Suc 0) ?h2,
                     [0, Suc 0, 2])"
    unfolding objective_pass_def Let_def fst_conv snd_conv s
    by (simp add: r)
  finally have "calculateCrowdingDistance complexityOnly heapF [0, 1, 2] =
      (add_distance ''complexity'' (Num (- 20)) [0, Suc 0, 2] (Suc 0) ?h2, [0, Suc 0, 2])" .
  moreover have "cd_of (add_distance ''complexity'' (Num (- 20)) [0, Suc 0, 2] (Suc 0) ?h2) 0 = PosInf"
    by (simp add: add_distance_def Let_def cd_of_upd_eval_cd cd_of_set_cd)
  moreover have "cd_of (add_distance ''complexity'' (Num (- 20)) [0, Suc 0, 2] (Suc 0) ?h2) (Suc 0)
      = Num (- 1)"
    by (simp add: add_distance_def Let_def cd_of_upd_eval_cd objval_set_cd objval_heapF js_sub_def)
       (simp add: cd_of_def [symmetric] cd_of_set_cd)
  moreover have "cd_of (add_distance ''complexity'' (Num (- 20)) [0, Suc 0, 2] (Suc 0) ?h2) 2 = PosInf"
    by (simp add: add_distance_def Let_def cd_of_upd_eval_cd cd_of_set_cd)
  ultimately show ?thesis by simp
qed

section \<open>Properties of the optimizer: crossover\<close>














section \<open>Properties of the optimizer: dominance\<close>

lemma js_lt_irrefl: "\<not> js_lt x x"
  by (cases x) simp_all

lemma js_lt_trans: "js_lt x y \<Longrightarrow> js_lt y z \<Longrightarrow> js_lt x z"
  by (cases x; cases y; cases z) simp_all

lemma js_lt_not_trans:
  "y \<noteq> NaN \<Longrightarrow> \<not> js_lt x y \<Longrightarrow> \<not> js_lt y z \<Longrightarrow> \<not> js_lt x z"
  by (cases x; cases y; cases z) simp_all

lemma js_lt_le_trans:
  "y \<noteq> NaN \<Longrightarrow> z \<noteq> NaN \<Longrightarrow> js_lt x y \<Longrightarrow> \<not> js_lt z y \<Longrightarrow> js_lt x z"
  by (cases x; cases y; cases z) simp_all

lemma js_le_lt_trans:
  "x \<noteq> NaN \<Longrightarrow> y \<noteq> NaN \<Longrightarrow> \<not> js_lt y x \<Longrightarrow> js_lt y z \<Longrightarrow> js_lt x z"
  by (cases x; cases y; cases z) simp_all

lemma dominates_loop_iff:
  "dominates_loop objs A B better \<longleftrightarrow>
     list_all (\<lambda>entry. \<not> worse_on (snd entry) (objval A (fst entry)) (objval B (fst entry))) objs \<and>
     (better \<or>
      list_ex (\<lambda>entry. worse_on (snd entry) (objval B (fst entry)) (objval A (fst entry))) objs)"
proof (induction objs arbitrary: better)
  case Nil
  show ?case by simp
next
  case (Cons entry objs)
  obtain k ob where entry: "entry = (k, ob)" by (cases entry)
  show ?case
    unfolding entry
    by (cases "o_maximize ob") (auto simp: Cons.IH worse_on_def js_gt_def Let_def)
qed

lemma dominates_iff_spec: "dominates objs A B \<longleftrightarrow> dominates_spec objs A B"
  by (simp add: dominates_def dominates_spec_def dominates_loop_iff)

lemma dominates_asym: "dominates objs A B \<Longrightarrow> \<not> dominates objs B A"
  unfolding dominates_iff_spec dominates_spec_def list_all_iff list_ex_iff by blast

lemma dominates_irrefl: "\<not> dominates objs A A"
  using dominates_asym by blast

lemma worse_on_cases:
  "worse_on ob x y = js_lt x y \<or> worse_on ob x y = js_lt y x"
  by (simp add: worse_on_def js_gt_def)

lemma dominates_trans:
  assumes B: "list_all (\<lambda>entry. objval B (fst entry) \<noteq> NaN) objs"
      and A: "list_all (\<lambda>entry. objval A (fst entry) \<noteq> NaN) objs"
      and C: "list_all (\<lambda>entry. objval C (fst entry) \<noteq> NaN) objs"
      and AB: "dominates objs A B" and BC: "dominates objs B C"
  shows "dominates objs A C"
proof -
  from AB have ab: "\<And>e. e \<in> set objs \<Longrightarrow> \<not> worse_on (snd e) (objval A (fst e)) (objval B (fst e))"
    and ab1: "\<exists>e \<in> set objs. worse_on (snd e) (objval B (fst e)) (objval A (fst e))"
    by (auto simp: dominates_iff_spec dominates_spec_def list_all_iff list_ex_iff)
  from BC have bc: "\<And>e. e \<in> set objs \<Longrightarrow> \<not> worse_on (snd e) (objval B (fst e)) (objval C (fst e))"
    by (auto simp: dominates_iff_spec dominates_spec_def list_all_iff list_ex_iff)
  from A B C have nn: "\<And>e. e \<in> set objs \<Longrightarrow>
      objval A (fst e) \<noteq> NaN \<and> objval B (fst e) \<noteq> NaN \<and> objval C (fst e) \<noteq> NaN"
    by (auto simp: list_all_iff)
  have 1: "\<not> worse_on (snd e) (objval A (fst e)) (objval C (fst e))" if e: "e \<in> set objs" for e
    using ab [OF e] bc [OF e] nn [OF e]
    by (auto simp: worse_on_def js_gt_def dest: js_lt_not_trans)
  from ab1 obtain e where e: "e \<in> set objs"
    and w: "worse_on (snd e) (objval B (fst e)) (objval A (fst e))" by blast
  have "worse_on (snd e) (objval C (fst e)) (objval A (fst e))"
    using w bc [OF e] nn [OF e]
    by (auto simp: worse_on_def js_gt_def intro: js_le_lt_trans js_lt_le_trans)
  with e 1 show ?thesis
    by (auto simp: dominates_iff_spec dominates_spec_def list_all_iff list_ex_iff)
qed

section \<open>Properties of the optimizer: the first phase of the sort\<close>

lemma same_core_refl: "same_core h h"
  by (simp add: same_core_def)

lemma same_core_trans: "same_core h h' \<Longrightarrow> same_core h' h'' \<Longrightarrow> same_core h h''"
  by (simp add: same_core_def)

lemma same_core_upd_eval:
  "(\<And>e. e_objectives (f e) = e_objectives e) \<Longrightarrow> same_core h (upd_eval h a f)"
  by (simp add: same_core_def upd_eval_def)

lemma same_core_id: "same_core h h' \<Longrightarrow> s_id (h' a) = s_id (h a)"
  by (simp add: same_core_def)

lemma same_core_objval: "same_core h h' \<Longrightarrow> objval (h' a) k = objval (h a) k"
  by (simp add: same_core_def objval_def)

lemma same_core_dominates:
  "same_core h h' \<Longrightarrow> dominates objs (h' a) (h' b) = dominates objs (h a) (h b)"
  by (simp add: dominates_iff_spec dominates_spec_def same_core_objval)

lemma same_core_dominatees:
  "same_core h h' \<Longrightarrow> dominatees objs h' P a = dominatees objs h P a"
  by (simp add: dominatees_def same_core_dominates)

lemma same_core_dominators:
  "same_core h h' \<Longrightarrow> dominators objs h' P a = dominators objs h P a"
  by (simp add: dominators_def same_core_dominates)

lemma same_core_distinct_ids:
  "same_core h h' \<Longrightarrow> distinct_ids h' P = distinct_ids h P"
  by (simp add: distinct_ids_def same_core_def)

lemma distinct_ids_eq:
  "distinct_ids h P \<Longrightarrow> a \<in> set P \<Longrightarrow> b \<in> set P \<Longrightarrow> s_id (h a) = s_id (h b) \<longleftrightarrow> a = b"
  unfolding distinct_ids_def by (auto simp: distinct_map dest: inj_onD)

lemma distinct_ids_distinct: "distinct_ids h P \<Longrightarrow> distinct P"
  by (simp add: distinct_ids_def distinct_map)

lemma dominated_of_upd_eval:
  "dominated_of (upd_eval h a f) x =
     (if x = a then e_dominatedSolutions (f (s_evaluation (h a))) else dominated_of h x)"
  by (simp add: dominated_of_def upd_eval_def)

text \<open>The inner loop, for a member \<open>a\<close> of a population with distinct ids.\<close>

lemma compare_others_spec:
  assumes "distinct_ids h P" and "a \<in> set P" and "set bs \<subseteq> set P"
  shows "same_core h (compare_others objs h a bs) \<and>
         (\<forall>x. count_of (compare_others objs h a bs) x =
               (if x = a
                then count_of h a + int (length (filter (\<lambda>b. dominates objs (h b) (h a)) bs))
                else count_of h x)) \<and>
         (\<forall>x. dominated_of (compare_others objs h a bs) x =
               (if x = a
                then fold set_add
                       (map (\<lambda>b. s_id (h b)) (filter (\<lambda>b. dominates objs (h a) (h b)) bs))
                       (dominated_of h a)
                else dominated_of h x))"
  using assms
proof (induction bs arbitrary: h)
  case Nil
  show ?case by (simp add: same_core_refl)
next
  case (Cons b bs)
  from Cons.prems have b: "b \<in> set P" and bs: "set bs \<subseteq> set P" by simp_all
  note ids = distinct_ids_eq [OF Cons.prems(1) Cons.prems(2) b]
  consider (same) "a = b"
    | (dom) "a \<noteq> b" "dominates objs (h a) (h b)"
    | (sub) "a \<noteq> b" "\<not> dominates objs (h a) (h b)" "dominates objs (h b) (h a)"
    | (none) "a \<noteq> b" "\<not> dominates objs (h a) (h b)" "\<not> dominates objs (h b) (h a)"
    by blast
  then show ?case
  proof cases
    case same
    with Cons.IH [OF Cons.prems(1) Cons.prems(2) bs] ids show ?thesis
      by (simp add: dominates_irrefl)
  next
    case dom
    let ?h' = "upd_eval h a
             (\<lambda>e. e\<lparr>e_dominatedSolutions := set_add (s_id (h b)) (e_dominatedSolutions e)\<rparr>)"
    have core: "same_core h ?h'" by (simp add: same_core_upd_eval)
    then have d': "distinct_ids ?h' P" using Cons.prems(1) by (simp add: same_core_distinct_ids)
    have step: "compare_others objs h a (b # bs) = compare_others objs ?h' a bs"
      using dom ids by simp
    have nb: "\<not> dominates objs (h b) (h a)" using dom(2) by (rule dominates_asym)
    have cnt: "count_of ?h' x = count_of h x" for x
      by (simp add: count_of_def upd_eval_def)
    have ds: "dominated_of ?h' a = set_add (s_id (h b)) (dominated_of h a)"
      by (simp add: dominated_of_upd_eval) (simp add: dominated_of_def)
    have dso: "x \<noteq> a \<Longrightarrow> dominated_of ?h' x = dominated_of h x" for x
      by (simp add: dominated_of_upd_eval)
    from Cons.IH [OF d' Cons.prems(2) bs]
    have IH: "same_core ?h' (compare_others objs ?h' a bs)"
      "\<And>x. count_of (compare_others objs ?h' a bs) x =
               (if x = a
                then count_of ?h' a + int (length (filter (\<lambda>b. dominates objs (?h' b) (?h' a)) bs))
                else count_of ?h' x)"
      "\<And>x. dominated_of (compare_others objs ?h' a bs) x =
               (if x = a
                then fold set_add
                       (map (\<lambda>b. s_id (?h' b)) (filter (\<lambda>b. dominates objs (?h' a) (?h' b)) bs))
                       (dominated_of ?h' a)
                else dominated_of ?h' x)"
      by blast+
    show ?thesis
      unfolding step
      using same_core_trans [OF core IH(1)] IH(2,3) dom nb
      by (simp add: same_core_dominates [OF core] same_core_id [OF core] cnt ds dso)
  next
    case sub
    let ?h' = "upd_eval h a (\<lambda>e. e\<lparr>e_dominationCount := e_dominationCount e + 1\<rparr>)"
    have core: "same_core h ?h'" by (simp add: same_core_upd_eval)
    then have d': "distinct_ids ?h' P" using Cons.prems(1) by (simp add: same_core_distinct_ids)
    have step: "compare_others objs h a (b # bs) = compare_others objs ?h' a bs"
      using sub ids by simp
    have cnt: "count_of ?h' a = count_of h a + 1"
      by (simp add: count_of_def upd_eval_def)
    have cnto: "x \<noteq> a \<Longrightarrow> count_of ?h' x = count_of h x" for x
      by (simp add: count_of_def upd_eval_def)
    have ds: "dominated_of ?h' x = dominated_of h x" for x
      by (simp add: dominated_of_def upd_eval_def)
    from Cons.IH [OF d' Cons.prems(2) bs]
    have IH: "same_core ?h' (compare_others objs ?h' a bs)"
      "\<And>x. count_of (compare_others objs ?h' a bs) x =
               (if x = a
                then count_of ?h' a + int (length (filter (\<lambda>b. dominates objs (?h' b) (?h' a)) bs))
                else count_of ?h' x)"
      "\<And>x. dominated_of (compare_others objs ?h' a bs) x =
               (if x = a
                then fold set_add
                       (map (\<lambda>b. s_id (?h' b)) (filter (\<lambda>b. dominates objs (?h' a) (?h' b)) bs))
                       (dominated_of ?h' a)
                else dominated_of ?h' x)"
      by blast+
    show ?thesis
      unfolding step
      using same_core_trans [OF core IH(1)] IH(2,3) sub
      by (simp add: same_core_dominates [OF core] same_core_id [OF core] cnt cnto ds)
  next
    case none
    have step: "compare_others objs h a (b # bs) = compare_others objs h a bs"
      using none ids by simp
    show ?thesis
      unfolding step
      using Cons.IH [OF Cons.prems(1) Cons.prems(2) bs] none by simp
  qed
qed

lemma init_counts_spec:
  assumes "distinct_ids h P" and "set as \<subseteq> set P" and "distinct as"
  shows "same_core h (fst (init_counts objs P h f0 as)) \<and>
         snd (init_counts objs P h f0 as) = f0 @ filter (\<lambda>a. dominators objs h P a = []) as \<and>
         (\<forall>x. count_of (fst (init_counts objs P h f0 as)) x =
               (if x \<in> set as then int (length (dominators objs h P x)) else count_of h x)) \<and>
         (\<forall>x. dominated_of (fst (init_counts objs P h f0 as)) x =
               (if x \<in> set as
                then fold set_add (map (\<lambda>b. s_id (h b)) (dominatees objs h P x)) []
                else dominated_of h x))"
  using assms
proof (induction "as" arbitrary: h f0)
  case Nil
  show ?case by (simp add: same_core_refl)
next
  case (Cons a as)
  from Cons.prems have a: "a \<in> set P" and as: "set as \<subseteq> set P"
    and na: "a \<notin> set as" and das: "distinct as" by simp_all
  let ?h1 = "upd_eval h a (\<lambda>e. e\<lparr>e_dominationCount := 0, e_dominatedSolutions := []\<rparr>)"
  let ?h2 = "compare_others objs ?h1 a P"
  define h3 where
    "h3 = (if count_of ?h2 a = 0 then upd_eval ?h2 a (\<lambda>e. e\<lparr>e_rank := 0\<rparr>) else ?h2)"
  define f1 where "f1 = (if count_of ?h2 a = 0 then f0 @ [a] else f0)"
  have core1: "same_core h ?h1" by (simp add: same_core_upd_eval)
  then have d1: "distinct_ids ?h1 P" using Cons.prems(1) by (simp add: same_core_distinct_ids)
  have c1: "count_of ?h1 x = (if x = a then 0 else count_of h x)" for x
    by (simp add: count_of_def upd_eval_def)
  have ds1: "dominated_of ?h1 x = (if x = a then [] else dominated_of h x)" for x
    by (simp add: dominated_of_def upd_eval_def)
  from compare_others_spec [OF d1 a subset_refl, of objs]
  have core12: "same_core ?h1 ?h2"
    and c2: "\<And>x. count_of ?h2 x =
               (if x = a
                then count_of ?h1 a + int (length (filter (\<lambda>b. dominates objs (?h1 b) (?h1 a)) P))
                else count_of ?h1 x)"
    and ds2: "\<And>x. dominated_of ?h2 x =
               (if x = a
                then fold set_add
                       (map (\<lambda>b. s_id (?h1 b)) (filter (\<lambda>b. dominates objs (?h1 a) (?h1 b)) P))
                       (dominated_of ?h1 a)
                else dominated_of ?h1 x)"
    by blast+
  have core2: "same_core h ?h2" by (rule same_core_trans [OF core1 core12])
  have c2': "count_of ?h2 x = (if x = a then int (length (dominators objs h P a)) else count_of h x)"
    for x
    unfolding c2 c1
    by (simp add: dominators_def same_core_dominates [OF core1])
  have ds2': "dominated_of ?h2 x =
      (if x = a then fold set_add (map (\<lambda>b. s_id (h b)) (dominatees objs h P a)) []
       else dominated_of h x)" for x
    unfolding ds2 ds1
    by (simp add: dominatees_def same_core_dominates [OF core1] same_core_id [OF core1])
  have core23: "same_core ?h2 h3" by (simp add: h3_def same_core_upd_eval same_core_refl)
  have core3: "same_core h h3" by (rule same_core_trans [OF core2 core23])
  then have d3: "distinct_ids h3 P" using Cons.prems(1) by (simp add: same_core_distinct_ids)
  have c3: "count_of h3 x = count_of ?h2 x" for x
    by (simp add: h3_def count_of_def upd_eval_def)
  have ds3: "dominated_of h3 x = dominated_of ?h2 x" for x
    by (simp add: h3_def dominated_of_def upd_eval_def)
  have step: "init_counts objs P h f0 (a # as) = init_counts objs P h3 f1 as"
    by (simp add: Let_def h3_def f1_def)
  have zero: "count_of ?h2 a = 0 \<longleftrightarrow> dominators objs h P a = []"
    by (simp add: c2')
  from Cons.IH [OF d3 as das, of f1]
  have IH: "same_core h3 (fst (init_counts objs P h3 f1 as))"
    "snd (init_counts objs P h3 f1 as) = f1 @ filter (\<lambda>a. dominators objs h3 P a = []) as"
    "\<And>x. count_of (fst (init_counts objs P h3 f1 as)) x =
               (if x \<in> set as then int (length (dominators objs h3 P x)) else count_of h3 x)"
    "\<And>x. dominated_of (fst (init_counts objs P h3 f1 as)) x =
               (if x \<in> set as
                then fold set_add (map (\<lambda>b. s_id (h3 b)) (dominatees objs h3 P x)) []
                else dominated_of h3 x)"
    by blast+
  have g1: "same_core h (fst (init_counts objs P h f0 (a # as)))"
    unfolding step by (rule same_core_trans [OF core3 IH(1)])
  have g2: "snd (init_counts objs P h f0 (a # as)) =
      f0 @ filter (\<lambda>a. dominators objs h P a = []) (a # as)"
    unfolding step IH(2) same_core_dominators [OF core3]
    using zero by (simp add: f1_def)
  have g3: "count_of (fst (init_counts objs P h f0 (a # as))) x =
      (if x \<in> set (a # as) then int (length (dominators objs h P x)) else count_of h x)" for x
    unfolding step IH(3) same_core_dominators [OF core3] c3 c2'
    using na by auto
  have g4: "dominated_of (fst (init_counts objs P h f0 (a # as))) x =
      (if x \<in> set (a # as)
       then fold set_add (map (\<lambda>b. s_id (h b)) (dominatees objs h P x)) []
       else dominated_of h x)" for x
    unfolding step IH(4) same_core_dominatees [OF core3] ds3 ds2'
    using na by (auto simp: same_core_id [OF core3])
  from g1 g2 g3 g4 show ?case by blast
qed

lemma fold_set_add_distinct:
  "distinct ys \<Longrightarrow> set ys \<inter> set acc = {} \<Longrightarrow> fold set_add ys acc = acc @ ys"
proof (induction ys arbitrary: acc)
  case Nil
  show ?case by simp
next
  case (Cons y ys)
  from Cons.prems have "fold set_add ys (acc @ [y]) = (acc @ [y]) @ ys"
    by (intro Cons.IH) auto
  moreover from Cons.prems have "fold set_add (y # ys) acc = fold set_add ys (acc @ [y])"
    by (simp add: set_add_def)
  ultimately show ?case by simp
qed

text \<open>
  After the first phase, for a population with distinct ids: the count of a member is
  the number of its dominators, its set of dominated ids lists the members it
  dominates, and front 0 holds the members without a dominator.
\<close>

lemma first_phase:
  assumes ids: "distinct_ids h P"
  shows "same_core h (fst (init_counts objs P h [] P))"
    and "snd (init_counts objs P h [] P) = undominated objs h P"
    and "\<And>a. a \<in> set P \<Longrightarrow>
           count_of (fst (init_counts objs P h [] P)) a = int (length (dominators objs h P a))"
    and "\<And>a. a \<in> set P \<Longrightarrow>
           dominated_of (fst (init_counts objs P h [] P)) a
             = map (\<lambda>b. s_id (h b)) (dominatees objs h P a)"
proof -
  note spec = init_counts_spec [OF ids subset_refl distinct_ids_distinct [OF ids], of objs "[]"]
  from spec show "same_core h (fst (init_counts objs P h [] P))" by blast
  have "dominators objs h P a = [] \<longleftrightarrow> \<not> list_ex (\<lambda>b. dominates objs (h b) (h a)) P" for a
    by (simp add: dominators_def filter_empty_conv list_ex_iff)
  with spec show "snd (init_counts objs P h [] P) = undominated objs h P"
    by (simp add: undominated_def)
  show "count_of (fst (init_counts objs P h [] P)) a = int (length (dominators objs h P a))"
    if "a \<in> set P" for a
    using spec that by simp
  show "dominated_of (fst (init_counts objs P h [] P)) a
          = map (\<lambda>b. s_id (h b)) (dominatees objs h P a)"
    if a: "a \<in> set P" for a
  proof -
    have "distinct (map (\<lambda>b. s_id (h b)) (dominatees objs h P a))"
      using ids unfolding distinct_ids_def dominatees_def by (rule distinct_map_filter)
    then have "fold set_add (map (\<lambda>b. s_id (h b)) (dominatees objs h P a)) []
        = map (\<lambda>b. s_id (h b)) (dominatees objs h P a)"
      using fold_set_add_distinct [of "map (\<lambda>b. s_id (h b)) (dominatees objs h P a)" "[]"]
      by simp
    with spec a show ?thesis by simp
  qed
qed

section \<open>Properties of the optimizer: the second phase of the sort\<close>

lemma release_found_spec:
  "same_core (fst acc) (fst (release_found k acc d))"
  "count_of (fst (release_found k acc d)) x =
     (if x = d then count_of (fst acc) d - 1 else count_of (fst acc) x)"
  "dominated_of (fst (release_found k acc d)) x = dominated_of (fst acc) x"
  "snd (release_found k acc d) = snd acc @ (if count_of (fst acc) d = 1 then [d] else [])"
proof -
  let ?h1 = "upd_eval (fst acc) d (\<lambda>e. e\<lparr>e_dominationCount := e_dominationCount e - 1\<rparr>)"
  let ?h2 = "upd_eval ?h1 d (\<lambda>e. e\<lparr>e_rank := k + 1\<rparr>)"
  have c1: "count_of ?h1 d = 0 \<longleftrightarrow> count_of (fst acc) d = 1"
    by (simp add: count_of_def upd_eval_def)
  have r: "release_found k acc d =
      (if count_of (fst acc) d = 1 then (?h2, snd acc @ [d]) else (?h1, snd acc))"
    unfolding release_found_def Let_def c1 ..
  show "same_core (fst acc) (fst (release_found k acc d))"
    unfolding r by (simp add: same_core_def upd_eval_def)
  show "count_of (fst (release_found k acc d)) x =
     (if x = d then count_of (fst acc) d - 1 else count_of (fst acc) x)"
    unfolding r by (simp add: count_of_def upd_eval_def)
  show "dominated_of (fst (release_found k acc d)) x = dominated_of (fst acc) x"
    unfolding r by (simp add: dominated_of_def upd_eval_def)
  show "snd (release_found k acc d) = snd acc @ (if count_of (fst acc) d = 1 then [d] else [])"
    unfolding r by simp
qed

text \<open>
  Releasing a list of members, one decrement each: every count falls by the number of
  occurrences of the member, and the members pushed are those whose count was
  positive and not larger than that number, each pushed once.
\<close>

lemma fold_release_found:
  fixes L :: "'a list" and k :: nat
  defines "R \<equiv> \<lambda>acc L. fold (\<lambda>d acc'. release_found k acc' d) L acc"
  shows "same_core (fst acc) (fst (R acc L)) \<and>
         (\<forall>x. count_of (fst (R acc L)) x = count_of (fst acc) x - int (count_list L x)) \<and>
         (\<forall>x. dominated_of (fst (R acc L)) x = dominated_of (fst acc) x) \<and>
         (\<exists>m. snd (R acc L) = snd acc @ m \<and> distinct m \<and>
               set m = {x \<in> set L. 1 \<le> count_of (fst acc) x \<and>
                                    count_of (fst acc) x \<le> int (count_list L x)})"
proof (induction L arbitrary: acc)
  case Nil
  show ?case by (simp add: R_def same_core_refl)
next
  case (Cons d L)
  let ?acc1 = "release_found k acc d"
  have step: "R acc (d # L) = R ?acc1 L" by (simp add: R_def)
  note rf = release_found_spec [where acc = acc and k = k and d = d]
  from Cons.IH [of ?acc1] obtain m where
    core: "same_core (fst ?acc1) (fst (R ?acc1 L))"
    and cnt: "\<And>x. count_of (fst (R ?acc1 L)) x = count_of (fst ?acc1) x - int (count_list L x)"
    and ds: "\<And>x. dominated_of (fst (R ?acc1 L)) x = dominated_of (fst ?acc1) x"
    and m: "snd (R ?acc1 L) = snd ?acc1 @ m" "distinct m"
      "set m = {x \<in> set L. 1 \<le> count_of (fst ?acc1) x \<and>
                            count_of (fst ?acc1) x \<le> int (count_list L x)}"
    by blast
  let ?m0 = "if count_of (fst acc) d = 1 then [d] else []"
  have g1: "same_core (fst acc) (fst (R acc (d # L)))"
    unfolding step by (rule same_core_trans [OF rf(1) core])
  have g2: "count_of (fst (R acc (d # L))) x = count_of (fst acc) x - int (count_list (d # L) x)"
    for x
    unfolding step cnt rf(2) by simp
  have g3: "dominated_of (fst (R acc (d # L))) x = dominated_of (fst acc) x" for x
    unfolding step ds rf(3) ..
  have g4: "snd (R acc (d # L)) = snd acc @ (?m0 @ m)"
    unfolding step m(1) rf(4) by simp
  have nd: "d \<notin> set m" if "count_of (fst acc) d = 1"
    using that unfolding m(3) rf(2) by simp
  have g5: "distinct (?m0 @ m)"
    using m(2) nd by simp
  have pos: "x \<in> set L" if "1 \<le> int (count_list L x)" for x
    using that by (metis count_list_0_iff int_ops(1) not_one_le_zero)
  have g6: "set (?m0 @ m) = {x \<in> set (d # L). 1 \<le> count_of (fst acc) x \<and>
                                    count_of (fst acc) x \<le> int (count_list (d # L) x)}"
    (is "?lhs = ?rhs")
  proof (intro set_eqI iffI)
    fix x
    assume "x \<in> ?lhs"
    then consider "x = d" "count_of (fst acc) d = 1" | "x \<in> set m" by (auto split: if_splits)
    then show "x \<in> ?rhs"
    proof cases
      case 1
      then show ?thesis by simp
    next
      case 2
      then show ?thesis unfolding m(3) rf(2) by (auto split: if_splits)
    qed
  next
    fix x
    assume x: "x \<in> ?rhs"
    show "x \<in> ?lhs"
    proof (cases "x = d")
      case True
      show ?thesis
      proof (cases "count_of (fst acc) d = 1")
        case True
        with \<open>x = d\<close> show ?thesis by simp
      next
        case False
        with x True have "2 \<le> count_of (fst acc) d"
          and "count_of (fst acc) d - 1 \<le> int (count_list L d)" by auto
        then have "1 \<le> int (count_list L d)" by linarith
        from pos [OF this] x True False show ?thesis
          unfolding set_append m(3) rf(2) by auto
      qed
    next
      case False
      with x show ?thesis unfolding set_append m(3) rf(2) by auto
    qed
  qed
  from g1 g2 g3 g4 g5 g6 show ?case by blast
qed

lemma find_unique:
  "distinct (map f P) \<Longrightarrow> d \<in> set P \<Longrightarrow> find (\<lambda>s. f s = f d) P = Some d"
  by (induction P) auto

lemma release_is_release_found:
  assumes ids: "distinct_ids h0 P" and core: "same_core h0 (fst acc)" and d: "d \<in> set P"
  shows "release P k acc (s_id (h0 d)) = release_found k acc d"
proof -
  have "find (\<lambda>s. s_id (fst acc s) = s_id (h0 d)) P = find (\<lambda>s. s_id (h0 s) = s_id (h0 d)) P"
    by (simp add: same_core_id [OF core])
  also have "\<dots> = Some d"
    using ids d unfolding distinct_ids_def by (rule find_unique)
  finally show ?thesis by (simp add: release_def)
qed

lemma fold_release_ids:
  assumes ids: "distinct_ids h0 P"
  shows "same_core h0 (fst acc) \<Longrightarrow> set ds \<subseteq> set P \<Longrightarrow>
         fold (\<lambda>i acc'. release P k acc' i) (map (\<lambda>d. s_id (h0 d)) ds) acc
           = fold (\<lambda>d acc'. release_found k acc' d) ds acc"
proof (induction ds arbitrary: acc)
  case Nil
  show ?case by simp
next
  case (Cons d ds)
  from Cons.prems have d: "d \<in> set P" and ds: "set ds \<subseteq> set P" by simp_all
  have core': "same_core h0 (fst (release_found k acc d))"
    by (rule same_core_trans [OF Cons.prems(1) release_found_spec(1)])
  show ?case
    using Cons.IH [OF core' ds] release_is_release_found [OF ids Cons.prems(1) d]
    by simp
qed

lemma dominatees_subset: "set (dominatees objs h P a) \<subseteq> set P"
  by (simp add: dominatees_def)

text \<open>
  One pass over a front is a fold of \<open>release_found\<close> over the members its solutions
  dominate, as long as the ids are distinct and the sets of dominated ids are those of
  the first phase.
\<close>

lemma fold_process_solution:
  assumes ids: "distinct_ids h0 P"
  shows "same_core h0 (fst acc) \<Longrightarrow>
         (\<And>s. s \<in> set cur \<Longrightarrow>
               dominated_of (fst acc) s = map (\<lambda>b. s_id (h0 b)) (dominatees objs h0 P s)) \<Longrightarrow>
         fold (\<lambda>s acc'. process_solution P k acc' s) cur acc
           = fold (\<lambda>d acc'. release_found k acc' d)
               (concat (map (dominatees objs h0 P) cur)) acc"
proof (induction cur arbitrary: acc)
  case Nil
  show ?case by simp
next
  case (Cons s cur)
  let ?acc1 = "fold (\<lambda>d acc'. release_found k acc' d) (dominatees objs h0 P s) acc"
  have ps: "process_solution P k acc s = ?acc1"
    unfolding process_solution_def
    using Cons.prems(2) [of s] fold_release_ids [OF ids Cons.prems(1) dominatees_subset]
    by simp
  note fr = fold_release_found [of acc k "dominatees objs h0 P s"]
  have core': "same_core h0 (fst ?acc1)"
    using same_core_trans [OF Cons.prems(1)] fr by blast
  have doms': "dominated_of (fst ?acc1) t = map (\<lambda>b. s_id (h0 b)) (dominatees objs h0 P t)"
    if "t \<in> set cur" for t
    using fr Cons.prems(2) [of t] that by simp
  from Cons.IH [OF core' doms'] ps show ?case by simp
qed

lemma process_front_as_fold:
  assumes "distinct_ids h0 P" and "same_core h0 h"
      and "\<And>s. s \<in> set cur \<Longrightarrow>
               dominated_of h s = map (\<lambda>b. s_id (h0 b)) (dominatees objs h0 P s)"
  shows "process_front P k h cur
           = fold (\<lambda>d acc'. release_found k acc' d)
               (concat (map (dominatees objs h0 P) cur)) (h, [])"
  unfolding process_front_def
  using fold_process_solution [OF assms(1), of "(h, [])" cur objs k] assms(2,3) by simp

lemma count_list_concat: "count_list (concat xss) x = sum_list (map (\<lambda>xs. count_list xs x) xss)"
  by (induction xss) simp_all

lemma count_list_filter_distinct:
  "distinct xs \<Longrightarrow> count_list (filter p xs) x = (if x \<in> set xs \<and> p x then 1 else 0)"
  by (induction xs) auto

lemma sum_list_indicator: "sum_list (map (\<lambda>x. if p x then 1 else 0) xs) = length (filter p xs)"
  by (induction xs) simp_all

lemma count_list_dominatees:
  assumes "distinct P"
  shows "count_list (concat (map (dominatees objs h P) cur)) x =
           (if x \<in> set P then length (filter (\<lambda>s. dominates objs (h s) (h x)) cur) else 0)"
  by (induction cur) (simp_all add: dominatees_def count_list_filter_distinct [OF assms])

lemma dominators_set:
  "set (dominators objs h P a) = {b \<in> set P. dominates objs (h b) (h a)}"
  by (simp add: dominators_def)

text \<open>
  Dominance on a comparable population is a strict partial order on a finite set, so a
  set of members that contains every member whose dominators it contains is the whole
  population.
\<close>

lemma all_members_placed:
  assumes cmp: "comparable objs h P"
      and closed: "\<And>a. a \<in> set P \<Longrightarrow> set (dominators objs h P a) \<subseteq> X \<Longrightarrow> a \<in> X"
  shows "set P \<subseteq> X"
proof -
  let ?r = "{(b, a). b \<in> set P \<and> a \<in> set P \<and> dominates objs (h b) (h a)}"
  have nn: "list_all (\<lambda>entry. objval (h a) (fst entry) \<noteq> NaN) objs" if "a \<in> set P" for a
    using cmp that by (simp add: comparable_def list_all_iff)
  have "?r \<subseteq> set P \<times> set P" by auto
  then have fin: "finite ?r" by (rule finite_subset) simp
  have tr: "trans ?r"
  proof (rule transI)
    fix x y z
    assume "(x, y) \<in> ?r" and "(y, z) \<in> ?r"
    then have x: "x \<in> set P" and y: "y \<in> set P" and z: "z \<in> set P"
      and xy: "dominates objs (h x) (h y)" and yz: "dominates objs (h y) (h z)" by auto
    from dominates_trans [OF nn [OF y] nn [OF x] nn [OF z] xy yz] x z
    show "(x, z) \<in> ?r" by simp
  qed
  have "acyclic ?r"
  proof (rule acyclicI, rule allI)
    fix x
    show "(x, x) \<notin> ?r\<^sup>+"
      unfolding trancl_id [OF tr] by (simp add: dominates_irrefl)
  qed
  with fin have wf: "wf ?r" by (rule finite_acyclic_wf)
  have "a \<in> set P \<longrightarrow> a \<in> X" for a
  proof (induction a rule: wf_induct_rule [OF wf])
    case (1 a)
    show ?case
    proof
      assume a: "a \<in> set P"
      have "set (dominators objs h P a) \<subseteq> X"
      proof
        fix b
        assume "b \<in> set (dominators objs h P a)"
        then have "b \<in> set P" and "(b, a) \<in> ?r" using a by (simp_all add: dominators_set)
        with 1 show "b \<in> X" by blast
      qed
      with a show "a \<in> X" by (rule closed)
    qed
  qed
  then show ?thesis by blast
qed

lemma count_list_pos_iff: "0 < count_list xs x \<longleftrightarrow> x \<in> set xs"
  by (induction xs) auto

text \<open>One pass of the loop over the last front, under the invariant.\<close>

lemma process_front_pass:
  fixes k :: nat
  assumes ids: "distinct_ids h0 P"
      and inv: "sort_invariant objs h0 P h fronts"
  defines "done \<equiv> set (concat (butlast fronts))"
      and "cur \<equiv> set (last fronts)"
      and "r \<equiv> process_front P k h (last fronts)"
  shows "same_core h0 (fst r)"
    and "\<And>a. a \<in> set P \<Longrightarrow>
           dominated_of (fst r) a = map (\<lambda>b. s_id (h0 b)) (dominatees objs h0 P a)"
    and "\<And>a. a \<in> set P \<Longrightarrow>
           count_of (fst r) a = int (card (set (dominators objs h0 P a) - (done \<union> cur)))"
    and "distinct (snd r)"
    and "set (snd r) =
           {a \<in> set P. set (dominators objs h0 P a) \<subseteq> done \<union> cur \<and>
                        set (dominators objs h0 P a) \<inter> cur \<noteq> {}}"
proof -
  let ?L = "concat (map (dominatees objs h0 P) (last fronts))"
  from inv have ne: "fronts \<noteq> []" and core: "same_core h0 h"
    and doms: "\<And>a. a \<in> set P \<Longrightarrow>
                 dominated_of h a = map (\<lambda>b. s_id (h0 b)) (dominatees objs h0 P a)"
    and dist: "distinct (concat fronts)"
    and cnt: "\<And>a. a \<in> set P \<Longrightarrow>
                 count_of h a = int (card (set (dominators objs h0 P a) - done))"
    and placed: "set (concat fronts) =
                   {a \<in> set P. set (dominators objs h0 P a) \<subseteq> done}"
    by (simp_all add: sort_invariant_def done_def)
  from ne have split: "fronts = butlast fronts @ [last fronts]" by simp
  then have cf: "concat fronts = concat (butlast fronts) @ last fronts"
    by (metis concat.simps(1,2) concat_append append_Nil2)
  from dist cf have dcur: "distinct (last fronts)" and disj: "done \<inter> cur = {}"
    by (simp_all add: done_def cur_def)
  from placed cf have curP: "cur \<subseteq> set P" by (auto simp: cur_def)
  have P: "distinct P" using ids by (rule distinct_ids_distinct)
  have r: "r = fold (\<lambda>d acc'. release_found k acc' d) ?L (h, [])"
    unfolding r_def
    using curP by (intro process_front_as_fold [OF ids core]) (auto simp: cur_def doms)
  note fr = fold_release_found [of "(h, [])" k ?L, folded r]
  from fr have "same_core h (fst r)" by simp
  with core show "same_core h0 (fst r)" by (rule same_core_trans)
  show "dominated_of (fst r) a = map (\<lambda>b. s_id (h0 b)) (dominatees objs h0 P a)"
    if "a \<in> set P" for a
    using fr doms [OF that] by simp
  have cl: "int (count_list ?L a) = int (card (set (dominators objs h0 P a) \<inter> cur))"
    if a: "a \<in> set P" for a
  proof -
    have "count_list ?L a = length (filter (\<lambda>s. dominates objs (h0 s) (h0 a)) (last fronts))"
      using a by (simp add: count_list_dominatees [OF P])
    also have "\<dots> = card {s \<in> cur. dominates objs (h0 s) (h0 a)}"
      using dcur by (simp add: distinct_length_filter cur_def Int_def conj_commute)
    also have "{s \<in> cur. dominates objs (h0 s) (h0 a)} = set (dominators objs h0 P a) \<inter> cur"
      using curP by (auto simp: dominators_set)
    finally show ?thesis by simp
  qed
  have sub: "set (dominators objs h0 P a) \<inter> cur \<subseteq> set (dominators objs h0 P a) - done" for a
    using disj by blast
  show c': "count_of (fst r) a = int (card (set (dominators objs h0 P a) - (done \<union> cur)))"
    if a: "a \<in> set P" for a
  proof -
    let ?A = "set (dominators objs h0 P a) - done"
    let ?B = "set (dominators objs h0 P a) \<inter> cur"
    have "count_of (fst r) a = int (card ?A) - int (card ?B)"
      using fr cnt [OF a] cl [OF a] by simp
    also have "\<dots> = int (card (?A - ?B))"
      using sub [of a] by (simp add: card_Diff_subset card_mono)
    also have "?A - ?B = set (dominators objs h0 P a) - (done \<union> cur)" by blast
    finally show ?thesis .
  qed
  from fr obtain m where m: "snd r = m" "distinct m"
    "set m = {x \<in> set ?L. 1 \<le> count_of h x \<and> count_of h x \<le> int (count_list ?L x)}"
    by auto
  from m show "distinct (snd r)" by simp
  have LP: "set ?L \<subseteq> set P" using dominatees_subset by fastforce
  show "set (snd r) =
           {a \<in> set P. set (dominators objs h0 P a) \<subseteq> done \<union> cur \<and>
                        set (dominators objs h0 P a) \<inter> cur \<noteq> {}}" (is "_ = ?rhs")
  proof (intro set_eqI iffI)
    fix x
    assume "x \<in> set (snd r)"
    with m have xL: "x \<in> set ?L" and le: "count_of h x \<le> int (count_list ?L x)" by simp_all
    from xL LP have x: "x \<in> set P" by blast
    let ?A = "set (dominators objs h0 P x) - done"
    let ?B = "set (dominators objs h0 P x) \<inter> cur"
    from le have "card ?A \<le> card ?B" by (simp add: cnt [OF x] cl [OF x])
    with sub [of x] have AB: "?B = ?A" by (intro card_seteq) simp_all
    from xL have "0 < count_list ?L x" by (rule count_list_pos_iff [THEN iffD2])
    then have "0 < card ?B" using cl [OF x] by simp
    then have "?B \<noteq> {}" by auto
    with AB x show "x \<in> ?rhs" by blast
  next
    fix x
    assume "x \<in> ?rhs"
    then have x: "x \<in> set P"
      and s1: "set (dominators objs h0 P x) \<subseteq> done \<union> cur"
      and s2: "set (dominators objs h0 P x) \<inter> cur \<noteq> {}" by simp_all
    let ?A = "set (dominators objs h0 P x) - done"
    let ?B = "set (dominators objs h0 P x) \<inter> cur"
    from s1 disj have AB: "?A = ?B" by blast
    from s2 have "0 < card ?B" by (simp add: card_gt_0_iff)
    then have pos: "0 < count_list ?L x" using cl [OF x] by simp
    then have "x \<in> set ?L" by (rule count_list_pos_iff [THEN iffD1])
    moreover have "1 \<le> count_of h x" "count_of h x \<le> int (count_list ?L x)"
      using pos cl [OF x] cnt [OF x] AB by simp_all
    ultimately show "x \<in> set (snd r)" using m by simp
  qed
qed

lemma concat_snoc: "concat (xss @ [xs]) = concat xss @ xs"
  by simp

lemma sort_invariant_step:
  fixes k :: nat
  assumes ids: "distinct_ids h0 P"
      and inv: "sort_invariant objs h0 P h fronts"
      and more: "snd (process_front P k h (last fronts)) \<noteq> []"
  shows "sort_invariant objs h0 P (fst (process_front P k h (last fronts)))
           (fronts @ [snd (process_front P k h (last fronts))])"
proof -
  let ?r = "process_front P k h (last fronts)"
  let ?done = "set (concat (butlast fronts))"
  let ?cur = "set (last fronts)"
  note pass = process_front_pass [OF ids inv, where k = k]
  from inv have ne: "fronts \<noteq> []" and dist: "distinct (concat fronts)"
    and placed: "set (concat fronts) =
                   {a \<in> set P. set (dominators objs h0 P a) \<subseteq> ?done}"
    by (simp_all add: sort_invariant_def)
  from ne have "fronts = butlast fronts @ [last fronts]" by simp
  then have cf: "concat fronts = concat (butlast fronts) @ last fronts"
    by (metis concat_snoc)
  then have all: "set (concat fronts) = ?done \<union> ?cur" by simp
  from dist cf have disj: "?done \<inter> ?cur = {}" by simp
  have new: "set (concat fronts) \<inter> set (snd ?r) = {}"
    unfolding pass(5) placed using disj by blast
  have d': "distinct (concat (fronts @ [snd ?r]))"
    using dist pass(4) new by simp
  have c': "\<forall>a \<in> set P. count_of (fst ?r) a =
      int (card (set (dominators objs h0 P a) - set (concat (butlast (fronts @ [snd ?r])))))"
    unfolding butlast_snoc all using pass(3) by blast
  have lhs: "set (concat (fronts @ [snd ?r])) =
      {a \<in> set P. set (dominators objs h0 P a) \<subseteq> ?done} \<union>
      {a \<in> set P. set (dominators objs h0 P a) \<subseteq> ?done \<union> ?cur \<and>
                   set (dominators objs h0 P a) \<inter> ?cur \<noteq> {}}"
    unfolding concat_snoc set_append pass(5) placed ..
  have rhs: "{a \<in> set P. set (dominators objs h0 P a)
                 \<subseteq> set (concat (butlast (fronts @ [snd ?r])))} =
      {a \<in> set P. set (dominators objs h0 P a) \<subseteq> ?done \<union> ?cur}"
    unfolding butlast_snoc all ..
  have p': "set (concat (fronts @ [snd ?r])) =
      {a \<in> set P. set (dominators objs h0 P a) \<subseteq> set (concat (butlast (fronts @ [snd ?r])))}"
    unfolding lhs rhs by blast
  from pass(1) pass(2) d' c' p' show ?thesis
    unfolding sort_invariant_def by simp
qed

lemma sort_invariant_stuck:
  fixes k :: nat
  assumes ids: "distinct_ids h0 P" and cmp: "comparable objs h0 P"
      and inv: "sort_invariant objs h0 P h fronts"
      and stuck: "last fronts = [] \<or> snd (process_front P k h (last fronts)) = []"
  shows "set (concat fronts) = set P"
proof
  from inv show "set (concat fronts) \<subseteq> set P" by (auto simp: sort_invariant_def)
next
  let ?r = "process_front P k h (last fronts)"
  let ?done = "set (concat (butlast fronts))"
  let ?cur = "set (last fronts)"
  note pass = process_front_pass [OF ids inv, where k = k]
  from inv have ne: "fronts \<noteq> []"
    and placed: "set (concat fronts) =
                   {a \<in> set P. set (dominators objs h0 P a) \<subseteq> ?done}"
    by (simp_all add: sort_invariant_def)
  from ne have "fronts = butlast fronts @ [last fronts]" by simp
  then have "concat fronts = concat (butlast fronts) @ last fronts"
    by (metis concat_snoc)
  then have all: "set (concat fronts) = ?done \<union> ?cur" by simp
  show "set P \<subseteq> set (concat fronts)"
  proof (rule all_members_placed [OF cmp])
    fix a
    assume a: "a \<in> set P" and sub: "set (dominators objs h0 P a) \<subseteq> set (concat fronts)"
    have "set (dominators objs h0 P a) \<inter> ?cur = {}"
    proof (rule ccontr)
      assume "set (dominators objs h0 P a) \<inter> ?cur \<noteq> {}"
      with a sub have "a \<in> set (snd ?r)" unfolding pass(5) all by simp
      moreover from \<open>set (dominators objs h0 P a) \<inter> ?cur \<noteq> {}\<close> have "last fronts \<noteq> []" by auto
      ultimately show False using stuck by simp
    qed
    with sub have "set (dominators objs h0 P a) \<subseteq> ?done" unfolding all by blast
    with a show "a \<in> set (concat fronts)" unfolding placed by simp
  qed
qed

lemma build_fronts_partition:
  assumes ids: "distinct_ids h0 P" and cmp: "comparable objs h0 P"
  shows "sort_invariant objs h0 P h fronts \<Longrightarrow> length fronts = k + 1 \<Longrightarrow>
         distinct (concat (snd (build_fronts P h fronts k))) \<and>
         set (concat (snd (build_fronts P h fronts k))) = set P \<and>
         take (length fronts) (snd (build_fronts P h fronts k)) = fronts"
  using ids cmp
proof (induction P h fronts k rule: build_fronts.induct)
  case (1 P h fronts k)
  from "1.prems"(2) have "fronts \<noteq> []" by auto
  from last_conv_nth [OF this] "1.prems"(2) have nth: "fronts ! k = last fronts"
    by simp
  let ?r = "process_front P k h (last fronts)"
  from "1.prems"(1) have dist: "distinct (concat fronts)" by (simp add: sort_invariant_def)
  show ?case
  proof (cases "last fronts \<noteq> [] \<and> snd ?r \<noteq> []")
    case True
    then have bf: "build_fronts P h fronts k = build_fronts P (fst ?r) (fronts @ [snd ?r]) (k + 1)"
      by (subst build_fronts.simps) (simp add: nth Let_def)
    have inv': "sort_invariant objs h0 P (fst ?r) (fronts @ [snd ?r])"
      using "1.prems"(3) "1.prems"(1) True by (intro sort_invariant_step) simp_all
    have len': "length (fronts @ [snd ?r]) = (k + 1) + 1" using "1.prems"(2) by simp
    from True have p1: "0 < length (fronts ! k)" and p2: "0 < length (snd ?r)"
      by (simp_all add: nth)
    have x: "?r = process_front P k h (fronts ! k)" by (simp add: nth)
    from "1.IH" [OF p1 x p2 inv' len' "1.prems"(3) "1.prems"(4)]
    have IH: "distinct (concat (snd (build_fronts P (fst ?r) (fronts @ [snd ?r]) (k + 1))))"
      "set (concat (snd (build_fronts P (fst ?r) (fronts @ [snd ?r]) (k + 1)))) = set P"
      "take (length (fronts @ [snd ?r])) (snd (build_fronts P (fst ?r) (fronts @ [snd ?r]) (k + 1)))
         = fronts @ [snd ?r]"
      by blast+
    from IH(3) have "take (length fronts)
        (take (length (fronts @ [snd ?r])) (snd (build_fronts P (fst ?r) (fronts @ [snd ?r]) (k + 1))))
        = fronts" by simp
    then have "take (length fronts) (snd (build_fronts P (fst ?r) (fronts @ [snd ?r]) (k + 1)))
        = fronts" by (simp add: min_def)
    with IH(1,2) show ?thesis unfolding bf by simp
  next
    case False
    then have stuck: "last fronts = [] \<or> snd ?r = []" by blast
    have bf: "snd (build_fronts P h fronts k) = fronts"
      using stuck by (subst build_fronts.simps) (auto simp: nth Let_def)
    from sort_invariant_stuck [OF "1.prems"(3) "1.prems"(4) "1.prems"(1) stuck] dist
    show ?thesis unfolding bf by simp
  qed
qed

lemma initial_invariant:
  assumes ids: "distinct_ids h P"
  shows "sort_invariant objs h P (fst (init_counts objs P h [] P))
           [snd (init_counts objs P h [] P)]"
proof -
  note fp = first_phase [OF ids, where objs = objs]
  have P: "distinct P" using ids by (rule distinct_ids_distinct)
  have dd: "distinct (dominators objs h P a)" for a
    using P by (simp add: dominators_def)
  have u: "set (undominated objs h P) = {a \<in> set P. set (dominators objs h P a) \<subseteq> {}}"
    by (auto simp: undominated_def dominators_def list_ex_iff filter_empty_conv)
  have du: "distinct (undominated objs h P)" using P by (simp add: undominated_def)
  show ?thesis
    unfolding sort_invariant_def fp(2)
    using fp(1) fp(3) fp(4) u du by (simp add: distinct_card [OF dd])
qed

text \<open>
  The sort of a well-formed population: front 0 holds the members no member dominates,
  and the fronts hold every member of the population once.
\<close>

lemma sort_partition:
  assumes ids: "distinct_ids h P" and cmp: "comparable objs h P"
  shows "snd (fastNonDominatedSort objs h P) \<noteq> []"
    and "snd (fastNonDominatedSort objs h P) ! 0 = undominated objs h P"
    and "distinct (concat (snd (fastNonDominatedSort objs h P)))"
    and "set (concat (snd (fastNonDominatedSort objs h P))) = set P"
proof -
  let ?i = "init_counts objs P h [] P"
  have f: "fastNonDominatedSort objs h P = build_fronts P (fst ?i) [snd ?i] 0"
    by (simp add: fastNonDominatedSort_def Let_def)
  from build_fronts_partition [OF ids cmp initial_invariant [OF ids], where k = 0]
  have bp: "distinct (concat (snd (build_fronts P (fst ?i) [snd ?i] 0)))"
    "set (concat (snd (build_fronts P (fst ?i) [snd ?i] 0))) = set P"
    "take (length [snd ?i]) (snd (build_fronts P (fst ?i) [snd ?i] 0)) = [snd ?i]"
    by simp_all
  from bp(1,2) show "distinct (concat (snd (fastNonDominatedSort objs h P)))"
    "set (concat (snd (fastNonDominatedSort objs h P))) = set P"
    unfolding f by simp_all
  from bp(3) obtain x xs where xs: "snd (build_fronts P (fst ?i) [snd ?i] 0) = x # xs"
    by (cases "snd (build_fronts P (fst ?i) [snd ?i] 0)") simp_all
  with bp(3) have "x = snd ?i" by simp
  with xs first_phase(2) [OF ids, where objs = objs]
  show "snd (fastNonDominatedSort objs h P) \<noteq> []"
    "snd (fastNonDominatedSort objs h P) ! 0 = undominated objs h P"
    unfolding f by simp_all
qed

text \<open>
  C1, as amended. For every population of evaluated solutions with pairwise distinct
  ids in which every member has, for every registered objective, a value that is a
  number (not \<open>NaN\<close>, not missing), the sort returns a list of fronts whose front 0 is
  exactly the members that no member dominates, which are the members whose
  domination count is 0 after the first phase, and the fronts partition the
  population: every member is in exactly one front, once.
\<close>

theorem fastNonDominatedSort_partitions:
  "distinct_ids h P \<Longrightarrow> comparable objs h P \<Longrightarrow>
   fastNonDominatedSort objs h P = (h', fronts) \<Longrightarrow>
     fronts \<noteq> [] \<and>
     fronts ! 0 = undominated objs h P \<and>
     fronts ! 0 = filter (\<lambda>a. count_of (fst (init_counts objs P h [] P)) a = 0) P \<and>
     distinct (concat fronts) \<and>
     set (concat fronts) = set P \<and>
     mset (concat fronts) = mset P"
proof -
  assume ids: "distinct_ids h P" and cmp: "comparable objs h P"
    and r: "fastNonDominatedSort objs h P = (h', fronts)"
  from r have f: "snd (fastNonDominatedSort objs h P) = fronts" by simp
  note sp = sort_partition [OF ids cmp, unfolded f]
  have "undominated objs h P = filter (\<lambda>a. dominators objs h P a = []) P"
    by (simp add: undominated_def dominators_def filter_empty_conv list_ex_iff)
  also have "\<dots> = filter (\<lambda>a. count_of (fst (init_counts objs P h [] P)) a = 0) P"
    by (rule filter_cong) (simp_all add: first_phase(3) [OF ids])
  finally have u: "undominated objs h P
      = filter (\<lambda>a. count_of (fst (init_counts objs P h [] P)) a = 0) P" .
  have "distinct P" using ids by (rule distinct_ids_distinct)
  from set_eq_iff_mset_eq_distinct [OF sp(3) this] sp(4)
  have m: "mset (concat fronts) = mset P" by blast
  from sp u m show ?thesis by simp
qed

lemma heapS_well_formed:
  "distinct_ids heapS [0, 1, 2, 3]" "comparable twoObjectives heapS [0, 1, 2, 3]"
  by code_simp+

theorem fastNonDominatedSort_partitions_witness:
  "distinct_ids heapS [0, 1, 2, 3] \<and> comparable twoObjectives heapS [0, 1, 2, 3] \<and>
   snd (fastNonDominatedSort twoObjectives heapS [0, 1, 2, 3]) = [[0, 3], [1], [2]] \<and>
   undominated twoObjectives heapS [0, 1, 2, 3] = [0, 3] \<and>
   snd (fastNonDominatedSort twoObjectives heapS [0, 1, 2, 3]) ! 0
     = undominated twoObjectives heapS [0, 1, 2, 3] \<and>
   mset (concat (snd (fastNonDominatedSort twoObjectives heapS [0, 1, 2, 3])))
     = mset [0, 1, 2, 3]"
proof -
  have v: "snd (fastNonDominatedSort twoObjectives heapS [0, 1, 2, 3]) = [[0, 3], [1], [2]]"
    by code_simp
  have u: "undominated twoObjectives heapS [0, 1, 2, 3] = [0, 3]"
    by code_simp
  have r: "fastNonDominatedSort twoObjectives heapS [0, 1, 2, 3] =
      (fst (fastNonDominatedSort twoObjectives heapS [0, 1, 2, 3]),
       snd (fastNonDominatedSort twoObjectives heapS [0, 1, 2, 3]))" by simp
  from fastNonDominatedSort_partitions [OF heapS_well_formed r]
  have "snd (fastNonDominatedSort twoObjectives heapS [0, 1, 2, 3]) ! 0
          = undominated twoObjectives heapS [0, 1, 2, 3]"
    and "mset (concat (snd (fastNonDominatedSort twoObjectives heapS [0, 1, 2, 3])))
          = mset [0, 1, 2, 3]"
    by blast+
  with heapS_well_formed v u show ?thesis by blast
qed

text \<open>
  C1 as stated fails on two kinds of population. With two members of the same id
  (\<open>heapD\<close>: ids \<open>a\<close>, \<open>b\<close>, \<open>b\<close> with performance 3, 2, 1), the second of them is
  skipped by the comparison of ids and never found by the lookup of its id: it is in no
  front. With values that are \<open>NaN\<close> (\<open>heapN\<close>), dominance can run in a circle: each
  of the three members is dominated by another, front 0 is empty and no member is in
  any front.
\<close>

theorem fastNonDominatedSort_omits_members_counterexample:
  "snd (fastNonDominatedSort performanceOnly heapD [0, 1, 2]) = [[0], [1]] \<and>
   snd (fastNonDominatedSort threeObjectives heapN [0, 1, 2]) = [[]]"
  by code_simp

section \<open>Properties of the optimizer: selection\<close>

lemma mset_sort_insert: "mset (sort_insert cmp x ys) = add_mset x (mset ys)"
  by (induction ys) simp_all

lemma mset_js_sort: "mset (js_sort cmp xs) = mset xs"
  unfolding js_sort_def by (induction xs) (simp_all add: mset_sort_insert)






lemma fold_invariant:
  assumes "\<And>x acc. x \<in> set xs \<Longrightarrow> I acc \<Longrightarrow> I (f x acc)" and "I acc"
  shows "I (fold f xs acc)"
  using assms by (induction xs arbitrary: acc) simp_all


lemma same_core_set_cd: "same_core h (set_cd h a v)"
  by (simp add: set_cd_def same_core_upd_eval)

lemma same_core_add_distance: "same_core h (add_distance k r front i h)"
  by (simp add: add_distance_def Let_def same_core_upd_eval)

text \<open>
  One round of the loop over the objectives reorders the front and leaves ids and
  objective values alone.
\<close>

lemma objective_pass_spec:
  shows "same_core (fst acc) (fst (objective_pass entry acc))"
    and "mset (snd (objective_pass entry acc)) = mset (snd acc)"
proof -
  let ?k = "fst entry"
  let ?n = "length (snd acc)"
  let ?F = "js_sort (by_objective ?k (snd entry) (fst acc)) (snd acc)"
  let ?h2 = "set_cd (set_cd (fst acc) (?F ! 0) PosInf) (?F ! (?n - 1)) PosInf"
  let ?range = "js_sub (objval (?h2 (?F ! 0)) ?k) (objval (?h2 (?F ! (?n - 1))) ?k)"
  let ?h3 = "fold (add_distance ?k ?range ?F) [1..<?n - 1] ?h2"
  have op: "objective_pass entry acc = (if ?range = Num 0 then (?h2, ?F) else (?h3, ?F))"
    by (simp add: objective_pass_def Let_def)
  have core2: "same_core (fst acc) ?h2"
    by (rule same_core_trans [OF same_core_set_cd same_core_set_cd])
  have core23: "same_core ?h2 ?h3"
    by (rule fold_invariant [where I = "same_core ?h2"])
       (auto intro: same_core_trans same_core_add_distance same_core_refl)
  have core3: "same_core (fst acc) ?h3" by (rule same_core_trans [OF core2 core23])
  show "same_core (fst acc) (fst (objective_pass entry acc))"
    unfolding op using core2 core3 by simp
  show "mset (snd (objective_pass entry acc)) = mset (snd acc)"
    unfolding op by (simp add: mset_js_sort)
qed

lemma fold_set_cd:
  "same_core h (fold (\<lambda>s h'. set_cd h' s v) xs h)"
  "cd_of (fold (\<lambda>s h'. set_cd h' s v) xs h) a = (if a \<in> set xs then v else cd_of h a)"
proof -
  show "same_core h (fold (\<lambda>s h'. set_cd h' s v) xs h)"
    by (rule fold_invariant [where I = "same_core h"])
       (auto intro: same_core_trans same_core_set_cd same_core_refl)
  show "cd_of (fold (\<lambda>s h'. set_cd h' s v) xs h) a = (if a \<in> set xs then v else cd_of h a)"
    by (induction xs arbitrary: h) (auto simp: cd_of_set_cd)
qed

text \<open>
  \<open>calculateCrowdingDistance\<close> reorders the front and leaves ids and objective values
  alone.
\<close>

lemma calculateCrowdingDistance_spec:
  shows "same_core h (fst (calculateCrowdingDistance objs h front))"
    and "mset (snd (calculateCrowdingDistance objs h front)) = mset front"
proof -
  let ?h0 = "fold (\<lambda>solution h'. set_cd h' solution (Num 0)) front h"
  let ?hi = "fold (\<lambda>solution h'. set_cd h' solution PosInf) front ?h0"
  let ?r = "fold objective_pass objs (?h0, front)"
  have c: "calculateCrowdingDistance objs h front =
      (if length front \<le> 2 then (?hi, front) else ?r)"
    by (simp add: calculateCrowdingDistance_def Let_def)
  have core0: "same_core h ?h0" by (rule fold_set_cd(1))
  have corei: "same_core h ?hi" by (rule same_core_trans [OF core0 fold_set_cd(1)])
  let ?I = "\<lambda>acc. same_core h (fst acc) \<and> mset (snd acc) = mset front"
  have I: "?I ?r"
  proof (rule fold_invariant [where I = ?I])
    show "?I (?h0, front)" using core0 by simp
  next
    fix entry acc
    assume acc: "?I acc"
    from objective_pass_spec [where acc = acc and entry = entry] acc
    show "?I (objective_pass entry acc)"
      by (auto intro: same_core_trans)
  qed
  show "same_core h (fst (calculateCrowdingDistance objs h front))"
    unfolding c using corei I by simp
  show "mset (snd (calculateCrowdingDistance objs h front)) = mset front"
    unfolding c using I by simp
qed













lemma length_crowded [simp]:
  "length (snd (calculateCrowdingDistance objs h front)) = length front"
  using calculateCrowdingDistance_spec(2) [of objs h front] by (metis size_mset)

lemma set_crowded [simp]:
  "set (snd (calculateCrowdingDistance objs h front)) = set front"
  using calculateCrowdingDistance_spec(2) [of objs h front] by (metis set_mset_mset)















end
